theory Spec2Isabelle
  imports Complex_Main "HOL-Library.Word"
begin

section \<open>The stroke-classification sketch (sliding window with half-window hop)\<close>

text \<open>
  A shallow embedding of the classifier sketch: the global variables are one record, every
  function that writes a global takes the record and returns the new one, and what the sketch
  sends to the outside (the frame handed to the classifier, the screens drawn) is returned as
  a list of events in program order.

  Conventions.
  \<^item> \<open>uint8_t\<close>, \<open>uint16_t\<close> and \<open>uint32_t\<close> are \<open>8 word\<close>, \<open>16 word\<close> and
    \<open>32 word\<close>. Where C promotes a \<open>uint16_t\<close> to \<open>int\<close> before comparing it with a
    macro or taking a remainder, the model reads the word with \<open>unat\<close>.
  \<^item> \<open>float\<close> is IEEE 754 single precision (\<open>binary32\<close> below): every product and
    every sum of the source is rounded to the nearest single-precision number, ties to even,
    in the order in which the source writes them (no fused multiply-add, no wider
    intermediate precision).
  \<^item> The source text has lost its \<open>*\<close> signs and some blanks (\<open>thrthr\<close>, \<open>axax\<close>,
    \<open>axCONVERT_G_TO_MS2\<close>, \<open>case1:\<close>); they are read as \<open>thr*thr\<close>, \<open>ax*ax\<close>,
    \<open>ax*CONVERT_G_TO_MS2\<close> and \<open>case 1:\<close>, as the third factor \<open>az*CONVERT_G_TO_MS2\<close>
    and the label \<open>case 0:\<close> of the same lines are written.
\<close>

subsection \<open>Single-precision arithmetic\<close>

text \<open>
  A \<open>float\<close> is a finite number, an infinity or a NaN. A finite number is held by its
  value, a rational; the operations below return only values that single precision has
  (24 significant bits, exponents from -126 to 127, subnormal numbers down to 2 to the
  power -149). The sign of a zero is not modelled: the sketch never divides and never
  looks at a sign, so it cannot tell the two zeros apart.
\<close>

datatype binary32 = Finite rat | PlusInf | MinusInf | NaN

text \<open>
  The binary exponent of a positive number \<open>a\<close>, found by halving or doubling \<open>a\<close> into
  the interval from 1 to 2 in at most \<open>n\<close> steps. With 128 steps the result is exact from
  2 to the power -128 up to 2 to the power 129; below, \<open>round32\<close> takes -126 anyhow, and
  above, the number rounds to an infinity.
\<close>

fun log2_from :: "nat \<Rightarrow> int \<Rightarrow> rat \<Rightarrow> int" where
  "log2_from 0 e a = e"
| "log2_from (Suc n) e a =
     (if a \<ge> 2 then log2_from n (e + 1) (a / 2)
      else if a < 1 then log2_from n (e - 1) (a * 2)
      else e)"

definition round_half_even :: "rat \<Rightarrow> int" where
  "round_half_even x =
     (let n = \<lfloor>x\<rfloor>; d = x - of_int n
      in if d < 1 / 2 then n else if d > 1 / 2 then n + 1 else if even n then n else n + 1)"

text \<open>
  Rounding to nearest, ties to even: zero is a float; any other number is cut to a multiple
  of the quantum of its binade (the quantum of the subnormal numbers below 2 to the power
  -126), and a result of magnitude 2 to the power 128 or more is an infinity.
\<close>

definition round32 :: "rat \<Rightarrow> binary32" where
  "round32 q =
     (if q = 0 then Finite 0
      else let e = max (log2_from 128 0 \<bar>q\<bar>) (- 126);
               quantum = 2 powi (e - 23);
               r = of_int (round_half_even (q / quantum)) * quantum
           in if r \<ge> 2 powi 128 then PlusInf
              else if r \<le> - (2 powi 128) then MinusInf
              else Finite r)"

text \<open>The product, the sum and the comparison \<open>>\<close> of two floats.\<close>

fun fmul :: "binary32 \<Rightarrow> binary32 \<Rightarrow> binary32" where
  "fmul (Finite a) (Finite b) = round32 (a * b)"
| "fmul NaN y = NaN"
| "fmul x NaN = NaN"
| "fmul PlusInf (Finite b) = (if b = 0 then NaN else if b > 0 then PlusInf else MinusInf)"
| "fmul MinusInf (Finite b) = (if b = 0 then NaN else if b > 0 then MinusInf else PlusInf)"
| "fmul (Finite a) PlusInf = (if a = 0 then NaN else if a > 0 then PlusInf else MinusInf)"
| "fmul (Finite a) MinusInf = (if a = 0 then NaN else if a > 0 then MinusInf else PlusInf)"
| "fmul PlusInf PlusInf = PlusInf"
| "fmul PlusInf MinusInf = MinusInf"
| "fmul MinusInf PlusInf = MinusInf"
| "fmul MinusInf MinusInf = PlusInf"

fun fadd :: "binary32 \<Rightarrow> binary32 \<Rightarrow> binary32" where
  "fadd (Finite a) (Finite b) = round32 (a + b)"
| "fadd NaN y = NaN"
| "fadd x NaN = NaN"
| "fadd PlusInf MinusInf = NaN"
| "fadd MinusInf PlusInf = NaN"
| "fadd PlusInf y = PlusInf"
| "fadd MinusInf y = MinusInf"
| "fadd x PlusInf = PlusInf"
| "fadd x MinusInf = MinusInf"

fun fgt :: "binary32 \<Rightarrow> binary32 \<Rightarrow> bool" where
  "fgt (Finite a) (Finite b) = (a > b)"
| "fgt NaN y = False"
| "fgt x NaN = False"
| "fgt PlusInf PlusInf = False"
| "fgt PlusInf y = True"
| "fgt MinusInf y = False"
| "fgt (Finite a) MinusInf = True"
| "fgt (Finite a) PlusInf = False"

subsection \<open>Constants\<close>

text \<open>
  The three macros of the generated header \<open>table_tennis_2_inferencing.h\<close>, which is not
  part of the sources, are parameters. The project's notes give 150, 6 and 6 (a window of 25
  samples of 6 axes, and the labels BHdrive, BHsmash, FHdrive, FHloop, FHsmash, zzz).
\<close>

record ei_config =
  EI_CLASSIFIER_DSP_INPUT_FRAME_SIZE :: nat
  EI_CLASSIFIER_RAW_SAMPLES_PER_FRAME :: nat
  EI_CLASSIFIER_LABEL_COUNT :: nat

definition SAMPLE_INTERVAL_MS :: "32 word" where
  "SAMPLE_INTERVAL_MS = 20"

definition WINDOW_SIZE :: "ei_config \<Rightarrow> nat" where
  "WINDOW_SIZE c = EI_CLASSIFIER_DSP_INPUT_FRAME_SIZE c"

definition AXIS_COUNT :: "ei_config \<Rightarrow> nat" where
  "AXIS_COUNT c = EI_CLASSIFIER_RAW_SAMPLES_PER_FRAME c"

definition WINDOW_SAMPLES :: "ei_config \<Rightarrow> nat" where
  "WINDOW_SAMPLES c = WINDOW_SIZE c div AXIS_COUNT c"

definition HOP_SAMPLES :: "ei_config \<Rightarrow> nat" where
  "HOP_SAMPLES c = (WINDOW_SAMPLES c + 1) div 2"

text \<open>A \<open>float\<close> literal is the single-precision number nearest to the decimal written.\<close>

definition CONF_THRESH :: binary32 where
  "CONF_THRESH = round32 (50 / 100)"

definition ACCEL_THRESH_G :: binary32 where
  "ACCEL_THRESH_G = round32 (20 / 10)"

definition FLASH_DURATION_MS :: "32 word" where
  "FLASH_DURATION_MS = 3000"

definition IDLE_TIMEOUT_MS :: "32 word" where
  "IDLE_TIMEOUT_MS = 10000"

definition ANIM_INTERVAL_MS :: "32 word" where
  "ANIM_INTERVAL_MS = 200"

definition CONVERT_G_TO_MS2 :: binary32 where
  "CONVERT_G_TO_MS2 = round32 (980665 / 100000)"

text \<open>\<open>const uint8_t IDLE_LABEL_INDEX = EI_CLASSIFIER_LABEL_COUNT - 1\<close>: the difference is
  taken on \<open>int\<close> and then cut to eight bits.\<close>

definition IDLE_LABEL_INDEX :: "ei_config \<Rightarrow> 8 word" where
  "IDLE_LABEL_INDEX c = word_of_int (int (EI_CLASSIFIER_LABEL_COUNT c) - 1)"

text \<open>The configuration of the project's notes.\<close>

definition table_tennis_2 :: ei_config where
  "table_tennis_2 =
     \<lparr>EI_CLASSIFIER_DSP_INPUT_FRAME_SIZE = 150,
      EI_CLASSIFIER_RAW_SAMPLES_PER_FRAME = 6,
      EI_CLASSIFIER_LABEL_COUNT = 6\<rparr>"

text \<open>
  The configurations on which the sketch stays inside its arrays and its loop counters do
  not wrap: the window is not empty and its length fits the \<open>uint16_t\<close> counters, a row
  has room for the six channels that \<open>readIMU\<close> writes and its length fits the \<open>uint8_t\<close>
  column counter and divides the frame, and every label that can be accepted has a row in
  the message table and a counter.
\<close>

definition wf_config :: "ei_config \<Rightarrow> bool" where
  "wf_config c =
     (0 < WINDOW_SAMPLES c \<and> WINDOW_SAMPLES c < 65536 \<and>
      6 \<le> AXIS_COUNT c \<and> AXIS_COUNT c < 256 \<and>
      WINDOW_SAMPLES c * AXIS_COUNT c = WINDOW_SIZE c \<and>
      1 \<le> EI_CLASSIFIER_LABEL_COUNT c \<and> EI_CLASSIFIER_LABEL_COUNT c \<le> 6)"

subsection \<open>Global variables\<close>

datatype State = STATE_OPENING | STATE_MAIN | STATE_FLASH | STATE_IDLE

type_synonym BufferRow = "binary32 list"

record globals =
  currentState :: State
  imuBuffer :: "BufferRow list"
  bufIndex :: "16 word"
  sampleCount :: "16 word"
  sampleCounter :: "16 word"
  countBHdrive :: "16 word"
  countBHsmash :: "16 word"
  countFHdrive :: "16 word"
  countFHloop :: "16 word"
  countFHsmash :: "16 word"
  totalStrokes :: "16 word"
  lastIMUread :: "32 word"
  lastDisplay :: "32 word"
  lastIdleAnim :: "32 word"
  lastStrokeTime :: "32 word"
  flashStart :: "32 word"
  encIndex :: "8 word list"

definition encMsgs :: "string list list" where
  "encMsgs =
     [[''Solid backhand!'', ''Clean drive!''],
      [''Backhand power!'', ''What a backhand!''],
      [''Nice drive!'', ''Perfect contact!''],
      [''Heavy topspin!'', ''Great loop!''],
      [''Pure power!'', ''Smashed it!'']]"

definition encCount :: "8 word list" where
  "encCount = [2, 2, 2, 2, 2]"

text \<open>The static initialisers: every numeric global is zero, the state is \<open>STATE_OPENING\<close>.\<close>

definition initial_globals :: "ei_config \<Rightarrow> globals" where
  "initial_globals c =
     \<lparr>currentState = STATE_OPENING,
      imuBuffer = replicate (WINDOW_SAMPLES c) (replicate (AXIS_COUNT c) (Finite 0)),
      bufIndex = 0, sampleCount = 0, sampleCounter = 0,
      countBHdrive = 0, countBHsmash = 0, countFHdrive = 0, countFHloop = 0,
      countFHsmash = 0, totalStrokes = 0,
      lastIMUread = 0, lastDisplay = 0, lastIdleAnim = 0, lastStrokeTime = 0,
      flashStart = 0,
      encIndex = [0, 0, 0, 0, 0]\<rparr>"

subsection \<open>The outside world\<close>

text \<open>
  What one pass of \<open>loop\<close> reads from outside: the clock (\<open>millis()\<close> at the top of
  \<open>loop\<close>, and once more inside \<open>drawIdle\<close>), the two sensor queries of \<open>readIMU\<close>
  (\<open>None\<close> when \<open>accelerationAvailable()\<close>, resp. \<open>gyroscopeAvailable()\<close>, is false), and
  the two library calls of \<open>runInference\<close>: \<open>signal_from_buffer\<close> gives its return
  code, \<open>run_classifier\<close> its return code and the array \<open>res.classification[i].value\<close>.
\<close>

record tick =
  millis :: "32 word"
  millis_drawIdle :: "32 word"
  acceleration :: "(binary32 \<times> binary32 \<times> binary32) option"
  gyroscope :: "(binary32 \<times> binary32 \<times> binary32) option"
  signal_from_buffer :: "binary32 list \<Rightarrow> int"
  run_classifier :: "binary32 list \<Rightarrow> int \<times> (nat \<Rightarrow> binary32)"

definition EI_IMPULSE_OK :: int where
  "EI_IMPULSE_OK = 0"

text \<open>
  What one pass of \<open>loop\<close> does to the outside: \<open>RunInference sig\<close> is a call of
  \<open>runInference\<close>, with the frame it assembled; the three others are the screens.
\<close>

datatype event =
    RunInference "binary32 list"
  | DrawMainScreen "16 word list"
  | DrawFlash "8 word" string
  | DrawIdle bool

fun is_RunInference :: "event \<Rightarrow> bool" where
  "is_RunInference (RunInference sig) = True"
| "is_RunInference _ = False"

fun is_DrawFlash :: "event \<Rightarrow> bool" where
  "is_DrawFlash (DrawFlash idx msg) = True"
| "is_DrawFlash _ = False"

record InferenceResult =
  index :: "8 word"
  confidence :: binary32

subsection \<open>Helpers\<close>

text \<open>
  \<open>accelAboveThreshold\<close>: the loop over the rows \<open>0 .. WINDOW_SAMPLES-1\<close>, which returns
  at the first row above the threshold.
\<close>

fun accel_rows :: "binary32 \<Rightarrow> BufferRow list \<Rightarrow> nat list \<Rightarrow> bool" where
  "accel_rows thr2 buf [] = False"
| "accel_rows thr2 buf (i # is) =
     (let ax = buf ! i ! 0; ay = buf ! i ! 1; az = buf ! i ! 2
      in if fgt (fadd (fadd (fmul ax ax) (fmul ay ay)) (fmul az az)) thr2 then True
         else accel_rows thr2 buf is)"

definition accelAboveThreshold :: "ei_config \<Rightarrow> globals \<Rightarrow> bool" where
  "accelAboveThreshold c s =
     (let thr = fmul ACCEL_THRESH_G CONVERT_G_TO_MS2;
          thr2 = fmul thr thr
      in accel_rows thr2 (imuBuffer s) [0..<WINDOW_SAMPLES c])"

text \<open>
  \<open>readIMU\<close>: the six locals start at 0 and are overwritten only by a reading that is
  available; the row at the cursor is written in any case, the cursor advances modulo the
  window, \<open>sampleCount\<close> stops at the window length and \<open>sampleCounter\<close> is incremented.
\<close>

definition readIMU :: "ei_config \<Rightarrow> tick \<Rightarrow> globals \<Rightarrow> globals" where
  "readIMU c e s =
     (let zero = Finite 0;
          (ax, ay, az) = (case acceleration e of Some a \<Rightarrow> a | None \<Rightarrow> (zero, zero, zero));
          (gx, gy, gz) = (case gyroscope e of Some g \<Rightarrow> g | None \<Rightarrow> (zero, zero, zero));
          p = unat (bufIndex s);
          r = (imuBuffer s ! p)
                [0 := fmul ax CONVERT_G_TO_MS2, 1 := fmul ay CONVERT_G_TO_MS2,
                 2 := fmul az CONVERT_G_TO_MS2, 3 := gx, 4 := gy, 5 := gz]
      in s\<lparr>imuBuffer := (imuBuffer s)[p := r],
           bufIndex := of_nat ((unat (bufIndex s) + 1) mod WINDOW_SAMPLES c),
           sampleCount :=
             (if unat (sampleCount s) < WINDOW_SAMPLES c then sampleCount s + 1
              else sampleCount s),
           sampleCounter := sampleCounter s + 1\<rparr>)"

text \<open>
  The frame of \<open>runInference\<close>: \<open>sig\<close> is a static array of \<open>WINDOW_SIZE\<close> floats,
  zero at start; the two nested loops write \<open>sig[i*AXIS_COUNT+j]\<close> for every row and
  column, so what an earlier call left in those cells is never read.
\<close>

definition assemble_sig :: "ei_config \<Rightarrow> globals \<Rightarrow> binary32 list" where
  "assemble_sig c s =
     fold (\<lambda>i sig.
             let p = (unat (bufIndex s) + i) mod WINDOW_SAMPLES c
             in fold (\<lambda>j sig. sig[i * AXIS_COUNT c + j := imuBuffer s ! p ! j])
                  [0..<AXIS_COUNT c] sig)
       [0..<WINDOW_SAMPLES c] (replicate (WINDOW_SIZE c) (Finite 0))"

text \<open>The search for the label of greatest value: \<open>best\<close> starts at 0 and moves to \<open>i\<close>
  only on a strictly greater value.\<close>

definition best_label :: "ei_config \<Rightarrow> (nat \<Rightarrow> binary32) \<Rightarrow> nat" where
  "best_label c classification =
     fold (\<lambda>i best. if fgt (classification i) (classification best) then i else best)
       [1..<EI_CLASSIFIER_LABEL_COUNT c] 0"

definition runInference :: "ei_config \<Rightarrow> tick \<Rightarrow> globals \<Rightarrow> InferenceResult" where
  "runInference c e s =
     (let sig = assemble_sig c s
      in if signal_from_buffer e sig \<noteq> 0 then \<lparr>index = 0, confidence = Finite 0\<rparr>
         else case run_classifier e sig of (rc, classification) \<Rightarrow>
           if rc \<noteq> EI_IMPULSE_OK then \<lparr>index = 0, confidence = Finite 0\<rparr>
           else let best = best_label c classification
                in \<lparr>index = of_nat best, confidence = classification best\<rparr>)"

definition drawMainScreen :: "globals \<Rightarrow> event" where
  "drawMainScreen s =
     DrawMainScreen [countBHdrive s, countFHdrive s, countBHsmash s, countFHsmash s,
                     countFHloop s, totalStrokes s]"

text \<open>\<open>drawFlash\<close>: the message at the category's cursor, taken modulo the size of its
  pool; the cursor is a \<open>uint8_t\<close> and is incremented after it is read. The event has
  the category and the message; where the text is put on the screen is not modelled.\<close>

definition drawFlash :: "8 word \<Rightarrow> globals \<Rightarrow> event \<times> globals" where
  "drawFlash idx s =
     (let k = unat idx;
          m = unat (encIndex s ! k) mod unat (encCount ! k);
          msg = encMsgs ! k ! m
      in (DrawFlash idx msg, s\<lparr>encIndex := (encIndex s)[k := encIndex s ! k + 1]\<rparr>))"

definition drawIdle :: "tick \<Rightarrow> globals \<Rightarrow> event" where
  "drawIdle e s =
     DrawIdle (odd (unat ((millis_drawIdle e - lastIdleAnim s) div ANIM_INTERVAL_MS)))"

subsection \<open>\<open>setup\<close> and \<open>loop\<close>\<close>

text \<open>
  \<open>setup()\<close>, here \<open>setup_sketch\<close>, spins forever when the sensor or the display does
  not start (\<open>None\<close>); otherwise the four time stamps take the clock, read once for each,
  and the state is \<open>STATE_MAIN\<close>. The frames of the opening animation are not part of the
  model.
\<close>

definition setup_sketch :: "ei_config \<Rightarrow> bool \<Rightarrow> bool \<Rightarrow> 32 word \<times> 32 word \<times> 32 word \<times> 32 word
    \<Rightarrow> globals option" where
  "setup_sketch c imu_begin display_begin clock =
     (if \<not> imu_begin then None
      else if \<not> display_begin then None
      else case clock of (t1, t2, t3, t4) \<Rightarrow>
        Some ((initial_globals c)
                \<lparr>lastIMUread := t1, lastDisplay := t2, lastIdleAnim := t3,
                 lastStrokeTime := t4, currentState := STATE_MAIN\<rparr>))"

text \<open>The first statement of \<open>loop\<close>: a sample is taken when the interval has passed.\<close>

definition sample_due :: "tick \<Rightarrow> globals \<Rightarrow> bool" where
  "sample_due e s = (millis e - lastIMUread s \<ge> SAMPLE_INTERVAL_MS)"

definition sampling :: "ei_config \<Rightarrow> tick \<Rightarrow> globals \<Rightarrow> globals" where
  "sampling c e s =
     (if sample_due e s then readIMU c e (s\<lparr>lastIMUread := millis e\<rparr>) else s)"

text \<open>The condition that opens the classification block, the same in the three states.\<close>

definition hop_ready :: "ei_config \<Rightarrow> globals \<Rightarrow> bool" where
  "hop_ready c s =
     (unat (sampleCount s) \<ge> WINDOW_SAMPLES c \<and> unat (sampleCounter s) \<ge> HOP_SAMPLES c)"

text \<open>The \<open>switch(inf.index)\<close> of the acceptance branch: labels 0 to 4 have a counter,
  any other value falls through the switch.\<close>

definition count_stroke :: "8 word \<Rightarrow> globals \<Rightarrow> globals" where
  "count_stroke idx s =
     (if idx = 0 then s\<lparr>countBHdrive := countBHdrive s + 1\<rparr>
      else if idx = 1 then s\<lparr>countBHsmash := countBHsmash s + 1\<rparr>
      else if idx = 2 then s\<lparr>countFHdrive := countFHdrive s + 1\<rparr>
      else if idx = 3 then s\<lparr>countFHloop := countFHloop s + 1\<rparr>
      else if idx = 4 then s\<lparr>countFHsmash := countFHsmash s + 1\<rparr>
      else s)"

text \<open>
  The body of the classification block. The three copies in \<open>loop\<close> differ in one
  statement: those of \<open>STATE_MAIN\<close> and \<open>STATE_IDLE\<close> end with
  \<open>currentState=STATE_FLASH\<close>, that of \<open>STATE_FLASH\<close> does not (\<open>to_flash\<close>).
\<close>

definition decision :: "ei_config \<Rightarrow> InferenceResult \<Rightarrow> globals \<Rightarrow> bool" where
  "decision c result s =
     (fgt (confidence result) CONF_THRESH \<and> index result < IDLE_LABEL_INDEX c \<and>
      accelAboveThreshold c s)"

definition classify_block :: "bool \<Rightarrow> ei_config \<Rightarrow> tick \<Rightarrow> globals \<Rightarrow> event list \<times> globals" where
  "classify_block to_flash c e s =
     (let s1 = s\<lparr>sampleCounter := sampleCounter s - of_nat (HOP_SAMPLES c)\<rparr>;
          result = runInference c e s1
      in if decision c result s1 then
           let s2 = count_stroke (index result) s1;
               s3 = s2\<lparr>totalStrokes := totalStrokes s2 + 1, flashStart := millis e\<rparr>;
               (ev, s4) = drawFlash (index result) s3;
               s5 = (if to_flash then s4\<lparr>currentState := STATE_FLASH\<rparr> else s4)
           in ([RunInference (assemble_sig c s1), ev], s5)
         else ([RunInference (assemble_sig c s1)], s1))"

definition hop_block :: "bool \<Rightarrow> ei_config \<Rightarrow> tick \<Rightarrow> globals \<Rightarrow> event list \<times> globals" where
  "hop_block to_flash c e s =
     (if hop_ready c s then classify_block to_flash c e s else ([], s))"

definition case_MAIN :: "ei_config \<Rightarrow> tick \<Rightarrow> globals \<Rightarrow> event list \<times> globals" where
  "case_MAIN c e s =
     (let now = millis e;
          (ev1, s1) = hop_block True c e s;
          s2 = (if now - lastStrokeTime s1 \<ge> IDLE_TIMEOUT_MS
                then s1\<lparr>currentState := STATE_IDLE, lastIdleAnim := now\<rparr> else s1);
          (ev2, s3) = (if now - lastDisplay s2 \<ge> ANIM_INTERVAL_MS
                       then (let s' = s2\<lparr>lastDisplay := now\<rparr> in ([drawMainScreen s'], s'))
                       else ([], s2))
      in (ev1 @ ev2, s3))"

definition case_FLASH :: "ei_config \<Rightarrow> tick \<Rightarrow> globals \<Rightarrow> event list \<times> globals" where
  "case_FLASH c e s =
     (let now = millis e;
          (ev1, s1) = hop_block False c e s;
          (ev2, s2) = (if now - flashStart s1 \<ge> FLASH_DURATION_MS
                       then (let s' = s1\<lparr>lastDisplay := now, lastStrokeTime := now\<rparr>
                             in ([drawMainScreen s'], s'\<lparr>currentState := STATE_MAIN\<rparr>))
                       else ([], s1))
      in (ev1 @ ev2, s2))"

definition case_IDLE :: "ei_config \<Rightarrow> tick \<Rightarrow> globals \<Rightarrow> event list \<times> globals" where
  "case_IDLE c e s =
     (let now = millis e;
          (ev1, s1) = (if now - lastIdleAnim s \<ge> ANIM_INTERVAL_MS
                       then (let s' = s\<lparr>lastIdleAnim := now\<rparr> in ([drawIdle e s'], s'))
                       else ([], s));
          (ev2, s2) = hop_block True c e s1
      in (ev1 @ ev2, s2))"

definition loop :: "ei_config \<Rightarrow> tick \<Rightarrow> globals \<Rightarrow> event list \<times> globals" where
  "loop c e s =
     (let s1 = sampling c e s
      in case currentState s1 of
           STATE_MAIN \<Rightarrow> case_MAIN c e s1
         | STATE_FLASH \<Rightarrow> case_FLASH c e s1
         | STATE_IDLE \<Rightarrow> case_IDLE c e s1
         | STATE_OPENING \<Rightarrow> ([], s1\<lparr>currentState := STATE_MAIN\<rparr>))"

text \<open>The passes of \<open>loop\<close> over a list of ticks: for each pass, what it did to the
  outside and the globals it left.\<close>

fun run :: "ei_config \<Rightarrow> tick list \<Rightarrow> globals \<Rightarrow> (event list \<times> globals) list" where
  "run c [] s = []"
| "run c (e # es) s = (let r = loop c e s in r # run c es (snd r))"

subsection \<open>Notions used to state the properties\<close>

text \<open>The globals once the classification block has paid for its hop:
  \<open>sampleCounter-=HOP_SAMPLES\<close>, the first statement of the block.\<close>

definition hop_spent :: "ei_config \<Rightarrow> globals \<Rightarrow> globals" where
  "hop_spent c s = s\<lparr>sampleCounter := sampleCounter s - of_nat (HOP_SAMPLES c)\<rparr>"

text \<open>The five category counters, in the order of their label indices.\<close>

definition counters :: "globals \<Rightarrow> 16 word list" where
  "counters s = [countBHdrive s, countBHsmash s, countFHdrive s, countFHloop s, countFHsmash s]"

text \<open>The message that \<open>drawFlash\<close> shows for a category: every pool has two messages.\<close>

definition flash_message :: "8 word \<Rightarrow> globals \<Rightarrow> string" where
  "flash_message idx s = encMsgs ! unat idx ! (unat (encIndex s ! unat idx) mod 2)"

text \<open>The inference of a tick fails on some globals: one of the two library calls of
  \<open>runInference\<close> returns an error.\<close>

definition inference_fails :: "ei_config \<Rightarrow> tick \<Rightarrow> globals \<Rightarrow> bool" where
  "inference_fails c e s =
     (signal_from_buffer e (assemble_sig c s) \<noteq> 0 \<or>
      fst (run_classifier e (assemble_sig c s)) \<noteq> EI_IMPULSE_OK)"

text \<open>A pass, given by its events and the globals it leaves, called the classifier.\<close>

definition calls_classifier :: "event list \<times> globals \<Rightarrow> bool" where
  "calls_classifier p = list_ex is_RunInference (fst p)"

text \<open>The number of passes, among those over the given ticks, in which \<open>readIMU\<close> runs.\<close>

fun samples_taken :: "ei_config \<Rightarrow> tick list \<Rightarrow> globals \<Rightarrow> nat" where
  "samples_taken c [] s = 0"
| "samples_taken c (e # es) s =
     (if sample_due e s then 1 else 0) + samples_taken c es (snd (loop c e s))"

text \<open>The shape of the ring buffer that \<open>readIMU\<close> keeps: \<open>WINDOW_SAMPLES\<close> rows of
  \<open>AXIS_COUNT\<close> columns, and a cursor inside the buffer.\<close>

definition ring_ok :: "ei_config \<Rightarrow> globals \<Rightarrow> bool" where
  "ring_ok c s =
     (length (imuBuffer s) = WINDOW_SAMPLES c \<and>
      list_all (\<lambda>r. length r = AXIS_COUNT c) (imuBuffer s) \<and>
      unat (bufIndex s) < WINDOW_SAMPLES c)"

text \<open>The row that \<open>readIMU\<close> writes at the cursor.\<close>

definition written_row :: "tick \<Rightarrow> globals \<Rightarrow> BufferRow" where
  "written_row e s =
     (let zero = Finite 0;
          (ax, ay, az) = (case acceleration e of Some a \<Rightarrow> a | None \<Rightarrow> (zero, zero, zero));
          (gx, gy, gz) = (case gyroscope e of Some g \<Rightarrow> g | None \<Rightarrow> (zero, zero, zero))
      in (imuBuffer s ! unat (bufIndex s))
           [0 := fmul ax CONVERT_G_TO_MS2, 1 := fmul ay CONVERT_G_TO_MS2,
            2 := fmul az CONVERT_G_TO_MS2, 3 := gx, 4 := gy, 5 := gz])"

text \<open>The test of \<open>accelAboveThreshold\<close> on the three accelerations of one row: the
  squared magnitude, as the source computes it, is above the squared threshold, as the
  source computes it.\<close>

definition above_threshold :: "binary32 \<Rightarrow> binary32 \<Rightarrow> binary32 \<Rightarrow> bool" where
  "above_threshold ax ay az =
     (let thr = fmul ACCEL_THRESH_G CONVERT_G_TO_MS2;
          thr2 = fmul thr thr
      in fgt (fadd (fadd (fmul ax ax) (fmul ay ay)) (fmul az az)) thr2)"

text \<open>A calm tick: the accelerations that \<open>readIMU\<close> stores for what the accelerometer
  reads, if it reads anything, do not pass that test (nothing is asked of the gyroscope or
  of the classifier).\<close>

definition calm :: "tick \<Rightarrow> bool" where
  "calm e =
     (case acceleration e of
        None \<Rightarrow> True
      | Some (ax, ay, az) \<Rightarrow>
          \<not> above_threshold (fmul ax CONVERT_G_TO_MS2) (fmul ay CONVERT_G_TO_MS2)
               (fmul az CONVERT_G_TO_MS2))"

text \<open>Ticks on each of which a sample is due: every tick comes at least
  \<open>SAMPLE_INTERVAL_MS\<close> after the one before, the first after the time \<open>t\<close>.\<close>

fun paced :: "32 word \<Rightarrow> tick list \<Rightarrow> bool" where
  "paced t [] = True"
| "paced t (e # es) = (millis e - t \<ge> SAMPLE_INTERVAL_MS \<and> paced (millis e) es)"

text \<open>Globals in \<open>STATE_MAIN\<close> with a well-shaped ring buffer on which the plausibility
  gate fails, and whose last stroke has the time \<open>t\<close>.\<close>

definition calm_main :: "ei_config \<Rightarrow> 32 word \<Rightarrow> globals \<Rightarrow> bool" where
  "calm_main c t s =
     (ring_ok c s \<and> \<not> accelAboveThreshold c s \<and> currentState s = STATE_MAIN \<and>
      lastStrokeTime s = t)"

subsection \<open>Concrete ticks and globals\<close>

text \<open>A tick at time \<open>t\<close> with the same reading on both sensors, on which
  \<open>signal_from_buffer\<close> succeeds and \<open>run_classifier\<close> returns \<open>rc\<close> and the given
  values.\<close>

definition tick_at ::
    "32 word \<Rightarrow> (binary32 \<times> binary32 \<times> binary32) option \<Rightarrow> int \<Rightarrow> (nat \<Rightarrow> binary32) \<Rightarrow> tick" where
  "tick_at t reading rc values =
     \<lparr>millis = t, millis_drawIdle = t, acceleration = reading, gyroscope = reading,
      signal_from_buffer = (\<lambda>sig. 0), run_classifier = (\<lambda>sig. (rc, values))\<rparr>"

text \<open>Classifier outputs: \<open>0.9f\<close> on label 4 (FHsmash), resp. on label 5 (the idle
  label), and \<open>0.02f\<close> on the others.\<close>

definition smash_values :: "nat \<Rightarrow> binary32" where
  "smash_values i = (if i = 4 then round32 (9 / 10) else round32 (2 / 100))"

definition idle_values :: "nat \<Rightarrow> binary32" where
  "idle_values i = (if i = 5 then round32 (9 / 10) else round32 (2 / 100))"

text \<open>A tick on which \<open>signal_from_buffer\<close> returns an error code.\<close>

definition signal_error_tick :: tick where
  "signal_error_tick = (tick_at 5 None 0 smash_values)\<lparr>signal_from_buffer := (\<lambda>sig. - 1)\<rparr>"

text \<open>\<open>n\<close> ticks, 20 ms apart from the time \<open>t\<close> on, each with a reading of 1 g on the z
  axis and a classifier that returns \<open>0.9f\<close> on label 4 (FHsmash).\<close>

fun calm_ticks :: "nat \<Rightarrow> 32 word \<Rightarrow> tick list" where
  "calm_ticks 0 t = []"
| "calm_ticks (Suc n) t =
     tick_at (t + 20) (Some (Finite 0, Finite 0, Finite 1)) 0 smash_values
       # calm_ticks n (t + 20)"

text \<open>Globals of the configuration \<open>table_tennis_2\<close> with a full window whose 25 rows
  are all the given row, in a given state and with a given hop counter.\<close>

definition full_window :: "State \<Rightarrow> BufferRow \<Rightarrow> 16 word \<Rightarrow> globals" where
  "full_window st row pending =
     (initial_globals table_tennis_2)
       \<lparr>currentState := st, imuBuffer := replicate 25 row, sampleCount := 25,
        sampleCounter := pending\<rparr>"

text \<open>A row with an acceleration of 30 (metres per second squared, about 3 g) on the z
  axis, and the row that \<open>readIMU\<close> stores at rest (1 g on the z axis).\<close>

definition swing_row :: BufferRow where
  "swing_row = [Finite 0, Finite 0, Finite 30, Finite 0, Finite 0, Finite 0]"

definition rest_row :: BufferRow where
  "rest_row = [Finite 0, Finite 0, fmul (Finite 1) CONVERT_G_TO_MS2, Finite 0, Finite 0, Finite 0]"

text \<open>The row that \<open>readIMU\<close> stores for the reading (-5147, 14836, 4673) / 8192 g. In
  exact arithmetic its squared magnitude, about 384.68154829, is above the square of
  twice 9.80665, which is 384.68153689.\<close>

definition margin_row :: BufferRow where
  "margin_row =
     [fmul (Finite (- 5147 / 8192)) CONVERT_G_TO_MS2, fmul (Finite (14836 / 8192)) CONVERT_G_TO_MS2,
      fmul (Finite (4673 / 8192)) CONVERT_G_TO_MS2, Finite 0, Finite 0, Finite 0]"

text \<open>A tick at time 20 with the reading (8115 / 4096, 121 / 4096, 557 / 2048) g, whose
  squared magnitude is 4 less 2 to the power -23: below 2 g.\<close>

definition margin_tick :: tick where
  "margin_tick =
     tick_at 20 (Some (Finite (8115 / 4096), Finite (121 / 4096), Finite (557 / 2048))) 0
       smash_values"

text \<open>Globals of the configuration \<open>table_tennis_2\<close> with a full window whose row \<open>k\<close>
  holds \<open>k\<close> in its first column, and the cursor on row 3.\<close>

definition numbered_window :: globals where
  "numbered_window =
     (full_window STATE_MAIN rest_row 13)
       \<lparr>imuBuffer :=
          map (\<lambda>k. [Finite (of_nat k), Finite 0, Finite 0, Finite 0, Finite 0, Finite 0]) [0..<25],
        bufIndex := 3\<rparr>"

text \<open>The globals that \<open>setup\<close> leaves when the clock reads 0.\<close>

definition boot :: globals where
  "boot = (initial_globals table_tennis_2)\<lparr>currentState := STATE_MAIN\<rparr>"

section \<open>Auxiliary facts\<close>

subsection \<open>Single-precision values\<close>

text \<open>The equations of the three operations are used only where a proof names them.\<close>

declare fmul.simps [simp del] fadd.simps [simp del] fgt.simps [simp del]

lemma CONF_THRESH_value: "CONF_THRESH = Finite (1 / 2)"
  by code_simp

lemma ACCEL_THRESH_G_value: "ACCEL_THRESH_G = Finite 2"
  by code_simp

lemma CONVERT_G_TO_MS2_value: "CONVERT_G_TO_MS2 = Finite (5141509 / 524288)"
  by code_simp

lemma threshold_value: "fmul ACCEL_THRESH_G CONVERT_G_TO_MS2 = Finite (5141509 / 262144)"
  by code_simp

lemma squared_threshold_value:
  "fmul (fmul ACCEL_THRESH_G CONVERT_G_TO_MS2) (fmul ACCEL_THRESH_G CONVERT_G_TO_MS2)
     = Finite (12605245 / 32768)"
  by code_simp

lemma float_literals:
  "round32 (9 / 10) = Finite (7549747 / 8388608)"
  "round32 (1 / 50) = Finite (5368709 / 268435456)"
  by code_simp+

lemma fgt_literals:
  "fgt (round32 (9 / 10)) (round32 (1 / 50))"
  "\<not> fgt (round32 (1 / 50)) (round32 (9 / 10))"
  "\<not> fgt (round32 (1 / 50)) (round32 (1 / 50))"
  "\<not> fgt (round32 (9 / 10)) (round32 (9 / 10))"
  "fgt (round32 (9 / 10)) CONF_THRESH"
  "fgt (round32 (9 / 10)) (Finite (1 / 2))"
  "\<not> fgt (Finite 0) CONF_THRESH"
  by code_simp+

lemma rest_value:
  "fmul (Finite 0) CONVERT_G_TO_MS2 = Finite 0"
  "fmul (Finite 1) CONVERT_G_TO_MS2 = Finite (5141509 / 524288)"
  by code_simp+

lemma zero_reading_not_above:
  "\<not> above_threshold (Finite 0) (Finite 0) (Finite 0)"
  "\<not> above_threshold (fmul (Finite 0) CONVERT_G_TO_MS2) (fmul (Finite 0) CONVERT_G_TO_MS2)
       (fmul (Finite 0) CONVERT_G_TO_MS2)"
  by code_simp+

lemma rest_reading_not_above:
  "\<not> above_threshold (Finite 0) (Finite 0) (fmul (Finite 1) CONVERT_G_TO_MS2)"
  "\<not> above_threshold (fmul (Finite 0) CONVERT_G_TO_MS2) (fmul (Finite 0) CONVERT_G_TO_MS2)
       (fmul (Finite 1) CONVERT_G_TO_MS2)"
  by code_simp+

lemma swing_above: "above_threshold (Finite 0) (Finite 0) (Finite 30)"
  by code_simp

lemma margin_row_not_above:
  "\<not> above_threshold (fmul (Finite (- 5147 / 8192)) CONVERT_G_TO_MS2)
       (fmul (Finite (14836 / 8192)) CONVERT_G_TO_MS2) (fmul (Finite (4673 / 8192)) CONVERT_G_TO_MS2)"
  by code_simp

lemma margin_row_values:
  "fmul (Finite (- 5147 / 8192)) CONVERT_G_TO_MS2 = Finite (- 3230389 / 524288)"
  "fmul (Finite (14836 / 8192)) CONVERT_G_TO_MS2 = Finite (4655727 / 262144)"
  "fmul (Finite (4673 / 8192)) CONVERT_G_TO_MS2 = Finite (5865789 / 1048576)"
  by code_simp+

lemma margin_tick_above:
  "above_threshold (fmul (Finite (8115 / 4096)) CONVERT_G_TO_MS2)
     (fmul (Finite (121 / 4096)) CONVERT_G_TO_MS2) (fmul (Finite (557 / 2048)) CONVERT_G_TO_MS2)"
  by code_simp

subsection \<open>The result of \<open>runInference\<close>\<close>

lemma fold_best_in:
  "fold (\<lambda>i best. if fgt (f i) (f best) then i else best) xs b \<in> insert b (set xs)"
proof (induction xs arbitrary: b)
  case Nil
  show ?case by simp
next
  case (Cons a xs)
  have "fold (\<lambda>i best. if fgt (f i) (f best) then i else best) xs (if fgt (f a) (f b) then a else b)
        \<in> insert (if fgt (f a) (f b) then a else b) (set xs)"
    by (rule Cons.IH)
  then show ?case by (auto split: if_splits)
qed

lemma best_label_bound: "0 < EI_CLASSIFIER_LABEL_COUNT c \<Longrightarrow> best_label c f < EI_CLASSIFIER_LABEL_COUNT c"
  using fold_best_in [of f "[1..<EI_CLASSIFIER_LABEL_COUNT c]" 0]
  by (auto simp: best_label_def)

lemma unat_IDLE_LABEL_INDEX:
  assumes "1 \<le> EI_CLASSIFIER_LABEL_COUNT c" "EI_CLASSIFIER_LABEL_COUNT c \<le> 6"
  shows "unat (IDLE_LABEL_INDEX c) = EI_CLASSIFIER_LABEL_COUNT c - 1"
proof -
  define k where "k = int (EI_CLASSIFIER_LABEL_COUNT c) - 1"
  have k: "0 \<le> k" "k < 256" using assms by (simp_all add: k_def)
  have "uint (word_of_int k :: 8 word) = k mod 2 ^ LENGTH(8)"
    by (rule uint_word_of_int)
  also have "\<dots> = k" using k by simp
  finally have "unat (word_of_int k :: 8 word) = nat k"
    by (simp add: unat_eq_nat_uint)
  then show ?thesis
    using assms unfolding IDLE_LABEL_INDEX_def k_def [symmetric] by (simp add: k_def)
qed

lemma runInference_index_le:
  assumes "1 \<le> EI_CLASSIFIER_LABEL_COUNT c" "EI_CLASSIFIER_LABEL_COUNT c \<le> 6"
  shows "index (runInference c e s) \<le> IDLE_LABEL_INDEX c"
proof -
  have b: "best_label c f < EI_CLASSIFIER_LABEL_COUNT c" for f
    using assms best_label_bound by simp
  have "unat (of_nat (best_label c f) :: 8 word) = best_label c f" for f
    using b [of f] assms by (simp add: unat_of_nat)
  then have "unat (of_nat (best_label c f) :: 8 word) \<le> unat (IDLE_LABEL_INDEX c)" for f
    using b [of f] assms by (simp add: unat_IDLE_LABEL_INDEX)
  then have "(of_nat (best_label c f) :: 8 word) \<le> IDLE_LABEL_INDEX c" for f
    by (simp add: word_le_nat_alt)
  then show ?thesis
    by (simp add: runInference_def Let_def split: prod.splits)
qed

subsection \<open>The classification block\<close>

lemma classify_block_reject:
  "\<not> decision c (runInference c e (hop_spent c s)) (hop_spent c s) \<Longrightarrow>
   classify_block b c e s = ([RunInference (assemble_sig c (hop_spent c s))], hop_spent c s)"
  by (simp add: classify_block_def hop_spent_def Let_def)

lemma classify_block_accept:
  "decision c (runInference c e (hop_spent c s)) (hop_spent c s) \<Longrightarrow>
   classify_block b c e s =
     (let idx = index (runInference c e (hop_spent c s));
          s2 = count_stroke idx (hop_spent c s);
          s3 = s2\<lparr>totalStrokes := totalStrokes s2 + 1, flashStart := millis e\<rparr>;
          s4 = snd (drawFlash idx s3)
      in ([RunInference (assemble_sig c (hop_spent c s)), fst (drawFlash idx s3)],
          if b then s4\<lparr>currentState := STATE_FLASH\<rparr> else s4))"
  by (simp add: classify_block_def hop_spent_def Let_def split: prod.splits)

lemma word8_lt5_cases:
  assumes "(idx :: 8 word) < 5"
  shows "idx = 0 \<or> idx = 1 \<or> idx = 2 \<or> idx = 3 \<or> idx = 4"
proof -
  have "unat idx < 5" using assms by (simp add: word_less_nat_alt)
  then have "unat idx = 0 \<or> unat idx = 1 \<or> unat idx = 2 \<or> unat idx = 3 \<or> unat idx = 4" by arith
  then show ?thesis by (auto simp: word_unat_eq_iff)
qed

lemma hop_block_idle: "\<not> hop_ready c s \<Longrightarrow> hop_block b c e s = ([], s)"
  by (simp add: hop_block_def)

lemma hop_block_ready: "hop_ready c s \<Longrightarrow> hop_block b c e s = classify_block b c e s"
  by (simp add: hop_block_def)

lemma drawFlash_fst: "fst (drawFlash idx s) = DrawFlash idx (encMsgs ! unat idx ! (unat (encIndex s ! unat idx) mod unat (encCount ! unat idx)))"
  by (simp add: drawFlash_def Let_def)

lemma drawFlash_snd: "snd (drawFlash idx s) = s\<lparr>encIndex := (encIndex s)[unat idx := encIndex s ! unat idx + 1]\<rparr>"
  by (simp add: drawFlash_def Let_def)

lemma classify_block_sampleCounter:
  "sampleCounter (snd (classify_block b c e s)) = sampleCounter s - of_nat (HOP_SAMPLES c)"
  by (simp add: classify_block_def Let_def count_stroke_def drawFlash_def split: prod.splits)

lemma classify_block_ring:
  "imuBuffer (snd (classify_block b c e s)) = imuBuffer s"
  "bufIndex (snd (classify_block b c e s)) = bufIndex s"
  "sampleCount (snd (classify_block b c e s)) = sampleCount s"
  by (simp_all add: classify_block_def Let_def count_stroke_def drawFlash_def split: prod.splits)

lemma classify_block_stamps:
  "lastStrokeTime (snd (classify_block b c e s)) = lastStrokeTime s"
  "lastIMUread (snd (classify_block b c e s)) = lastIMUread s"
  "lastDisplay (snd (classify_block b c e s)) = lastDisplay s"
  "lastIdleAnim (snd (classify_block b c e s)) = lastIdleAnim s"
  by (simp_all add: classify_block_def Let_def count_stroke_def drawFlash_def split: prod.splits)

lemma classify_block_calls: "list_ex is_RunInference (fst (classify_block b c e s))"
  by (simp add: classify_block_def Let_def split: prod.splits)

lemma hop_block_calls: "list_ex is_RunInference (fst (hop_block b c e s)) = hop_ready c s"
  by (simp add: hop_block_def classify_block_calls)

lemma hop_block_sampleCounter:
  "sampleCounter (snd (hop_block b c e s)) =
     (if hop_ready c s then sampleCounter s - of_nat (HOP_SAMPLES c) else sampleCounter s)"
  by (simp add: hop_block_def classify_block_sampleCounter)

subsection \<open>Classifier calls and the hop counter in a pass\<close>

lemma case_MAIN_calls: "list_ex is_RunInference (fst (case_MAIN c e s)) = hop_ready c s"
  by (simp add: case_MAIN_def Let_def drawMainScreen_def hop_block_calls split_beta)

lemma case_MAIN_sampleCounter: "sampleCounter (snd (case_MAIN c e s)) = sampleCounter (snd (hop_block True c e s))"
  by (simp add: case_MAIN_def Let_def split_beta)

lemma case_FLASH_calls: "list_ex is_RunInference (fst (case_FLASH c e s)) = hop_ready c s"
  by (simp add: case_FLASH_def Let_def drawMainScreen_def hop_block_calls split_beta)

lemma case_FLASH_sampleCounter: "sampleCounter (snd (case_FLASH c e s)) = sampleCounter (snd (hop_block False c e s))"
  by (simp add: case_FLASH_def Let_def split_beta)

lemma hop_ready_lastIdleAnim [simp]: "hop_ready c (s\<lparr>lastIdleAnim := t\<rparr>) = hop_ready c s"
  by (simp add: hop_ready_def)

lemma case_IDLE_calls: "list_ex is_RunInference (fst (case_IDLE c e s)) = hop_ready c s"
  by (simp add: case_IDLE_def Let_def drawIdle_def hop_block_calls split_beta)

lemma case_IDLE_sampleCounter:
  "sampleCounter (snd (case_IDLE c e s)) =
     (if hop_ready c s then sampleCounter s - of_nat (HOP_SAMPLES c) else sampleCounter s)"
  by (simp add: case_IDLE_def Let_def hop_block_sampleCounter split_beta)

lemma sampling_currentState [simp]: "currentState (sampling c e s) = currentState s"
  by (simp add: sampling_def readIMU_def Let_def split: prod.splits option.splits)

lemma loop_calls:
  "list_ex is_RunInference (fst (loop c e s)) =
     (currentState s \<noteq> STATE_OPENING \<and> hop_ready c (sampling c e s))"
  by (cases "currentState s")
     (simp_all add: loop_def Let_def case_MAIN_calls case_FLASH_calls case_IDLE_calls)

lemma loop_sampleCounter:
  "sampleCounter (snd (loop c e s)) =
     (if currentState s \<noteq> STATE_OPENING \<and> hop_ready c (sampling c e s)
      then sampleCounter (sampling c e s) - of_nat (HOP_SAMPLES c)
      else sampleCounter (sampling c e s))"
  by (cases "currentState s")
     (simp_all add: loop_def Let_def case_MAIN_sampleCounter case_FLASH_sampleCounter
        case_IDLE_sampleCounter hop_block_sampleCounter)

subsection \<open>Acceptance\<close>

lemma counters_count_stroke:
  assumes "idx < 5"
  shows "counters (count_stroke idx s) = (counters s)[unat idx := counters s ! unat idx + 1]"
  using word8_lt5_cases [OF assms]
  by (auto simp: counters_def count_stroke_def)

lemma count_stroke_others:
  "totalStrokes (count_stroke idx s) = totalStrokes s"
  "currentState (count_stroke idx s) = currentState s"
  "flashStart (count_stroke idx s) = flashStart s"
  "lastStrokeTime (count_stroke idx s) = lastStrokeTime s"
  "lastDisplay (count_stroke idx s) = lastDisplay s"
  "lastIdleAnim (count_stroke idx s) = lastIdleAnim s"
  "encIndex (count_stroke idx s) = encIndex s"
  by (simp_all add: count_stroke_def)

lemma counters_updates [simp]:
  "counters (s\<lparr>sampleCounter := a\<rparr>) = counters s"
  "counters (s\<lparr>totalStrokes := b\<rparr>) = counters s"
  "counters (s\<lparr>flashStart := t\<rparr>) = counters s"
  "counters (s\<lparr>encIndex := x\<rparr>) = counters s"
  "counters (s\<lparr>currentState := st\<rparr>) = counters s"
  "counters (s\<lparr>lastIdleAnim := t\<rparr>) = counters s"
  "counters (s\<lparr>lastDisplay := t\<rparr>) = counters s"
  "counters (s\<lparr>lastStrokeTime := t\<rparr>) = counters s"
  by (simp_all add: counters_def)

lemma IDLE_LABEL_INDEX_le5:
  assumes "1 \<le> EI_CLASSIFIER_LABEL_COUNT c" "EI_CLASSIFIER_LABEL_COUNT c \<le> 6"
  shows "IDLE_LABEL_INDEX c \<le> 5"
  using unat_IDLE_LABEL_INDEX [OF assms] assms by (simp add: word_le_nat_alt)

lemma encCount_nth: "idx < 5 \<Longrightarrow> unat (encCount ! unat (idx :: 8 word)) = 2"
  using word8_lt5_cases [of idx] by (auto simp: encCount_def)

lemma classify_block_accepted:
  assumes d: "decision c (runInference c e (hop_spent c s)) (hop_spent c s)"
    and l: "1 \<le> EI_CLASSIFIER_LABEL_COUNT c" "EI_CLASSIFIER_LABEL_COUNT c \<le> 6"
  shows "fst (classify_block b c e s) =
           [RunInference (assemble_sig c (hop_spent c s)),
            DrawFlash (index (runInference c e (hop_spent c s)))
              (flash_message (index (runInference c e (hop_spent c s))) s)]"
    and "counters (snd (classify_block b c e s)) =
           (counters s)[unat (index (runInference c e (hop_spent c s))) :=
              counters s ! unat (index (runInference c e (hop_spent c s))) + 1]"
    and "totalStrokes (snd (classify_block b c e s)) = totalStrokes s + 1"
    and "flashStart (snd (classify_block b c e s)) = millis e"
    and "currentState (snd (classify_block b c e s)) = (if b then STATE_FLASH else currentState s)"
proof -
  let ?idx = "index (runInference c e (hop_spent c s))"
  from d have "?idx < IDLE_LABEL_INDEX c" by (simp add: decision_def)
  then have i5: "?idx < 5" using IDLE_LABEL_INDEX_le5 [OF l] by simp
  have cs: "counters (count_stroke ?idx (hop_spent c s)) =
            (counters s)[unat ?idx := counters s ! unat ?idx + 1]"
    using counters_count_stroke [OF i5, of "hop_spent c s"] by (simp add: hop_spent_def)
  show "fst (classify_block b c e s) =
           [RunInference (assemble_sig c (hop_spent c s)), DrawFlash ?idx (flash_message ?idx s)]"
    using encCount_nth [OF i5]
    by (simp add: classify_block_accept [OF d] Let_def drawFlash_fst flash_message_def
          count_stroke_others hop_spent_def)
  show "counters (snd (classify_block b c e s)) = (counters s)[unat ?idx := counters s ! unat ?idx + 1]"
    using cs by (simp add: classify_block_accept [OF d] Let_def drawFlash_snd)
  show "totalStrokes (snd (classify_block b c e s)) = totalStrokes s + 1"
    by (simp add: classify_block_accept [OF d] Let_def drawFlash_snd count_stroke_others hop_spent_def)
  show "flashStart (snd (classify_block b c e s)) = millis e"
    by (simp add: classify_block_accept [OF d] Let_def drawFlash_snd)
  show "currentState (snd (classify_block b c e s)) = (if b then STATE_FLASH else currentState s)"
    by (simp add: classify_block_accept [OF d] Let_def drawFlash_snd count_stroke_others hop_spent_def)
qed

lemma decision_iff:
  assumes "1 \<le> EI_CLASSIFIER_LABEL_COUNT c" "EI_CLASSIFIER_LABEL_COUNT c \<le> 6"
  shows "decision c (runInference c e s) s \<longleftrightarrow>
           fgt (confidence (runInference c e s)) (Finite (1 / 2)) \<and>
           index (runInference c e s) \<noteq> IDLE_LABEL_INDEX c \<and>
           accelAboveThreshold c s"
  using runInference_index_le [OF assms, of e s]
  by (auto simp: decision_def CONF_THRESH_value)

subsection \<open>The plausibility gate\<close>

lemma accel_rows_iff:
  "accel_rows thr2 buf ks \<longleftrightarrow>
     (\<exists>i\<in>set ks.
        fgt (fadd (fadd (fmul (buf ! i ! 0) (buf ! i ! 0)) (fmul (buf ! i ! 1) (buf ! i ! 1)))
               (fmul (buf ! i ! 2) (buf ! i ! 2))) thr2)"
  by (induction ks) (auto simp: Let_def)

lemma accelAboveThreshold_iff:
  "accelAboveThreshold c s \<longleftrightarrow>
     (\<exists>i. i < WINDOW_SAMPLES c \<and>
        above_threshold (imuBuffer s ! i ! 0) (imuBuffer s ! i ! Suc 0) (imuBuffer s ! i ! 2))"
  by (auto simp: accelAboveThreshold_def accel_rows_iff above_threshold_def Let_def)

subsection \<open>The concrete configuration, ticks and globals\<close>

lemma table_tennis_2_macros:
  "WINDOW_SIZE table_tennis_2 = 150" "AXIS_COUNT table_tennis_2 = 6"
  "WINDOW_SAMPLES table_tennis_2 = 25" "HOP_SAMPLES table_tennis_2 = 13"
  "EI_CLASSIFIER_LABEL_COUNT table_tennis_2 = 6" "IDLE_LABEL_INDEX table_tennis_2 = 5"
  by (simp_all add: table_tennis_2_def WINDOW_SIZE_def AXIS_COUNT_def WINDOW_SAMPLES_def HOP_SAMPLES_def IDLE_LABEL_INDEX_def)

lemma wf_table_tennis_2: "wf_config table_tennis_2"
  by (simp add: wf_config_def table_tennis_2_macros)

lemma upt_1_6: "[Suc 0..<6] = [1, 2, 3, 4, 5::nat]"
  by code_simp

lemma best_label_smash: "best_label table_tennis_2 smash_values = 4"
  by (simp add: best_label_def table_tennis_2_macros upt_1_6 smash_values_def fgt_literals)

lemma best_label_idle: "best_label table_tennis_2 idle_values = 5"
  by (simp add: best_label_def table_tennis_2_macros upt_1_6 idle_values_def fgt_literals)

lemma runInference_smash:
  "runInference table_tennis_2 (tick_at t r 0 smash_values) s = \<lparr>index = 4, confidence = round32 (9 / 10)\<rparr>"
  by (simp add: runInference_def tick_at_def EI_IMPULSE_OK_def best_label_smash Let_def smash_values_def)

lemma runInference_idle:
  "runInference table_tennis_2 (tick_at t r 0 idle_values) s = \<lparr>index = 5, confidence = round32 (9 / 10)\<rparr>"
  by (simp add: runInference_def tick_at_def EI_IMPULSE_OK_def best_label_idle Let_def idle_values_def)

lemma swing_window_gate: "accelAboveThreshold table_tennis_2 (full_window st swing_row k)"
  unfolding accelAboveThreshold_iff
  by (rule exI [of _ 0]) (simp add: table_tennis_2_macros full_window_def swing_row_def swing_above)

lemma swing_window_gate': "accelAboveThreshold table_tennis_2 (hop_spent c (full_window st swing_row k))"
  unfolding accelAboveThreshold_iff
  by (rule exI [of _ 0])
     (simp add: table_tennis_2_macros full_window_def swing_row_def hop_spent_def swing_above)

lemma full_window_fields:
  "currentState (full_window st row k) = st"
  "totalStrokes (full_window st row k) = 0"
  "counters (full_window st row k) = [0, 0, 0, 0, 0]"
  "sampleCount (full_window st row k) = 25"
  "sampleCounter (full_window st row k) = k"
  "lastStrokeTime (full_window st row k) = 0"
  "lastIMUread (full_window st row k) = 0"
  "lastDisplay (full_window st row k) = 0"
  "lastIdleAnim (full_window st row k) = 0"
  "flashStart (full_window st row k) = 0"
  "bufIndex (full_window st row k) = 0"
  "imuBuffer (full_window st row k) = replicate 25 row"
  by (simp_all add: full_window_def initial_globals_def counters_def)

subsection \<open>Sampling and acceptance in a pass\<close>

lemma sampling_not_due: "\<not> sample_due e s \<Longrightarrow> sampling c e s = s"
  by (simp add: sampling_def)

lemma sampling_keeps:
  "counters (sampling c e s) = counters s"
  "totalStrokes (sampling c e s) = totalStrokes s"
  "encIndex (sampling c e s) = encIndex s"
  "flashStart (sampling c e s) = flashStart s"
  "lastStrokeTime (sampling c e s) = lastStrokeTime s"
  "lastDisplay (sampling c e s) = lastDisplay s"
  "lastIdleAnim (sampling c e s) = lastIdleAnim s"
  by (simp_all add: sampling_def readIMU_def Let_def counters_def split_beta)

lemma flash_message_sampling [simp]: "flash_message idx (sampling c e s) = flash_message idx s"
  by (simp add: flash_message_def sampling_keeps)

lemma classify_block_flashStart_accept:
  "decision c (runInference c e (hop_spent c s)) (hop_spent c s) \<Longrightarrow>
   flashStart (snd (classify_block b c e s)) = millis e"
  by (simp add: classify_block_accept Let_def drawFlash_snd)

lemma case_FLASH_accept:
  assumes "hop_ready c s" "decision c (runInference c e (hop_spent c s)) (hop_spent c s)"
  shows "case_FLASH c e s = classify_block False c e s"
  using classify_block_flashStart_accept [OF assms(2), of False]
  by (simp add: case_FLASH_def Let_def split_beta hop_block_ready [OF assms(1)] FLASH_DURATION_MS_def)

lemma loop_FLASH_accept:
  assumes "currentState s = STATE_FLASH" "hop_ready c (sampling c e s)"
    "decision c (runInference c e (hop_spent c (sampling c e s))) (hop_spent c (sampling c e s))"
  shows "loop c e s = classify_block False c e (sampling c e s)"
  using assms by (simp add: loop_def Let_def case_FLASH_accept)

lemma classify_block_accept_events:
  "decision c (runInference c e (hop_spent c s)) (hop_spent c s) \<Longrightarrow>
   length (fst (classify_block b c e s)) = 2"
  by (simp add: classify_block_accept Let_def)

lemma case_MAIN_accept_late:
  assumes "hop_ready c s" "decision c (runInference c e (hop_spent c s)) (hop_spent c s)"
    and "millis e - lastStrokeTime s \<ge> IDLE_TIMEOUT_MS"
  shows "currentState (snd (case_MAIN c e s)) = STATE_IDLE"
    and "lastIdleAnim (snd (case_MAIN c e s)) = millis e"
    and "counters (snd (case_MAIN c e s)) = counters (snd (classify_block True c e s))"
    and "totalStrokes (snd (case_MAIN c e s)) = totalStrokes (snd (classify_block True c e s))"
    and "flashStart (snd (case_MAIN c e s)) = flashStart (snd (classify_block True c e s))"
    and "lastStrokeTime (snd (case_MAIN c e s)) = lastStrokeTime s"
    and "take 2 (fst (case_MAIN c e s)) = fst (classify_block True c e s)"
  using assms(3) classify_block_accept_events [OF assms(2), of True]
  by (simp_all add: case_MAIN_def Let_def split_beta hop_block_ready [OF assms(1)] classify_block_stamps)

lemma loop_MAIN: "currentState s = STATE_MAIN \<Longrightarrow> loop c e s = case_MAIN c e (sampling c e s)"
  by (simp add: loop_def Let_def)

lemma lastStrokeTime_hop_block: "lastStrokeTime (snd (hop_block b c e s)) = lastStrokeTime s"
  by (simp add: hop_block_def classify_block_stamps)

lemma lastStrokeTime_loop:
  assumes "lastStrokeTime (snd (loop c e s)) \<noteq> lastStrokeTime s"
  shows "currentState s = STATE_FLASH \<and> currentState (snd (loop c e s)) = STATE_MAIN"
proof (cases "currentState s")
  case STATE_OPENING
  with assms show ?thesis by (simp add: loop_def Let_def sampling_keeps)
next
  case STATE_MAIN
  with assms show ?thesis
    by (simp add: loop_def Let_def case_MAIN_def split_beta lastStrokeTime_hop_block sampling_keeps
          split: if_splits)
next
  case STATE_FLASH
  with assms show ?thesis
    by (simp add: loop_def Let_def case_FLASH_def split_beta lastStrokeTime_hop_block sampling_keeps
          split: if_splits)
next
  case STATE_IDLE
  with assms show ?thesis
    by (simp add: loop_def Let_def case_IDLE_def split_beta lastStrokeTime_hop_block sampling_keeps
          split: if_splits)
qed

lemma tick_at_fields:
  "millis (tick_at t r rc v) = t"
  "millis_drawIdle (tick_at t r rc v) = t"
  "acceleration (tick_at t r rc v) = r"
  "gyroscope (tick_at t r rc v) = r"
  by (simp_all add: tick_at_def)

lemma full_window_encIndex: "encIndex (full_window st row k) = [0, 0, 0, 0, 0]"
  by (simp add: full_window_def initial_globals_def)

lemma flash_message_full_window_4: "flash_message 4 (full_window st row k) = ''Pure power!''"
  by (simp add: flash_message_def full_window_encIndex encMsgs_def)

lemma decision_smash_swing:
  "decision table_tennis_2
     (runInference table_tennis_2 (tick_at t r 0 smash_values) (hop_spent table_tennis_2 (full_window st swing_row k)))
     (hop_spent table_tennis_2 (full_window st swing_row k))"
  by (simp add: decision_def runInference_smash swing_window_gate' fgt_literals table_tennis_2_macros)

subsection \<open>Rejected results\<close>

lemma runInference_fails:
  "inference_fails c e s \<Longrightarrow> runInference c e s = \<lparr>index = 0, confidence = Finite 0\<rparr>"
  by (auto simp: inference_fails_def runInference_def Let_def split: prod.splits)

lemma decision_fails: "inference_fails c e s \<Longrightarrow> \<not> decision c (runInference c e s) s"
  by (simp add: runInference_fails decision_def fgt_literals)

lemma classify_block_rejects_agree:
  assumes "\<not> decision c (runInference c e (hop_spent c s)) (hop_spent c s)"
    and "\<not> decision c (runInference c e' (hop_spent c s)) (hop_spent c s)"
  shows "classify_block b c e' s = classify_block b c e s"
  by (simp add: classify_block_reject [OF assms(1)] classify_block_reject [OF assms(2)])

lemma hop_block_rejects_agree:
  assumes "\<not> decision c (runInference c e (hop_spent c s)) (hop_spent c s)"
    and "\<not> decision c (runInference c e' (hop_spent c s)) (hop_spent c s)"
  shows "hop_block b c e' s = hop_block b c e s"
  by (simp add: hop_block_def classify_block_rejects_agree [OF assms])

lemma sampling_cong:
  "millis e' = millis e \<Longrightarrow> acceleration e' = acceleration e \<Longrightarrow> gyroscope e' = gyroscope e \<Longrightarrow>
   sampling c e' s = sampling c e s"
  by (simp add: sampling_def sample_due_def readIMU_def)

lemma hop_spent_lastIdleAnim: "hop_spent c (s\<lparr>lastIdleAnim := t\<rparr>) = (hop_spent c s)\<lparr>lastIdleAnim := t\<rparr>"
  by (simp add: hop_spent_def)

lemma assemble_sig_lastIdleAnim [simp]: "assemble_sig c (s\<lparr>lastIdleAnim := t\<rparr>) = assemble_sig c s"
  by (simp add: assemble_sig_def)

lemma runInference_lastIdleAnim [simp]: "runInference c e (s\<lparr>lastIdleAnim := t\<rparr>) = runInference c e s"
  by (simp add: runInference_def)

lemma decision_lastIdleAnim [simp]: "decision c r (s\<lparr>lastIdleAnim := t\<rparr>) = decision c r s"
  by (simp add: decision_def accelAboveThreshold_def)

lemma loop_rejects_agree:
  assumes m: "millis e' = millis e" "millis_drawIdle e' = millis_drawIdle e"
      "acceleration e' = acceleration e" "gyroscope e' = gyroscope e"
    and "\<not> decision c (runInference c e (hop_spent c (sampling c e s))) (hop_spent c (sampling c e s))"
    and "\<not> decision c (runInference c e' (hop_spent c (sampling c e s))) (hop_spent c (sampling c e s))"
  shows "loop c e' s = loop c e s"
proof -
  let ?s = "sampling c e s"
  have s: "sampling c e' s = ?s"
    by (rule sampling_cong) (simp_all add: m)
  have h: "hop_block b c e' ?s = hop_block b c e ?s" for b
    by (rule hop_block_rejects_agree [OF assms(5,6)])
  have h': "hop_block b c e' (?s\<lparr>lastIdleAnim := t\<rparr>) = hop_block b c e (?s\<lparr>lastIdleAnim := t\<rparr>)" for b t
    using assms(5,6) by (intro hop_block_rejects_agree) (simp_all add: hop_spent_lastIdleAnim)
  have 1: "case_MAIN c e' ?s = case_MAIN c e ?s"
    by (simp only: case_MAIN_def m h)
  have 2: "case_FLASH c e' ?s = case_FLASH c e ?s"
    by (simp only: case_FLASH_def m h)
  have 3: "case_IDLE c e' ?s = case_IDLE c e ?s"
    by (simp add: case_IDLE_def Let_def split_beta m h h' drawIdle_def)
  show ?thesis
    by (cases "currentState s") (simp_all add: loop_def Let_def s 1 2 3)
qed

lemma hop_block_reject_counters:
  assumes "\<not> (hop_ready c s \<and> decision c (runInference c e (hop_spent c s)) (hop_spent c s))"
  shows "counters (snd (hop_block b c e s)) = counters s"
    and "totalStrokes (snd (hop_block b c e s)) = totalStrokes s"
    and "currentState (snd (hop_block b c e s)) = currentState s"
    and "\<not> list_ex is_DrawFlash (fst (hop_block b c e s))"
proof -
  have "hop_block b c e s = ([], s) \<or> hop_block b c e s = ([RunInference (assemble_sig c (hop_spent c s))], hop_spent c s)"
    using assms by (auto simp: hop_block_def classify_block_reject)
  then show "counters (snd (hop_block b c e s)) = counters s"
    and "totalStrokes (snd (hop_block b c e s)) = totalStrokes s"
    and "currentState (snd (hop_block b c e s)) = currentState s"
    and "\<not> list_ex is_DrawFlash (fst (hop_block b c e s))"
    by (auto simp: hop_spent_def)
qed

lemma loop_reject_counters:
  assumes "\<not> (hop_ready c (sampling c e s) \<and>
              decision c (runInference c e (hop_spent c (sampling c e s))) (hop_spent c (sampling c e s)))"
  shows "counters (snd (loop c e s)) = counters s"
    and "totalStrokes (snd (loop c e s)) = totalStrokes s"
    and "\<not> list_ex is_DrawFlash (fst (loop c e s))"
proof -
  have a: "\<not> (hop_ready c (sampling c e s\<lparr>lastIdleAnim := t\<rparr>) \<and>
              decision c (runInference c e (hop_spent c (sampling c e s\<lparr>lastIdleAnim := t\<rparr>)))
                (hop_spent c (sampling c e s\<lparr>lastIdleAnim := t\<rparr>)))" for t
    using assms by (simp add: hop_spent_lastIdleAnim)
  show "counters (snd (loop c e s)) = counters s"
    by (cases "currentState s")
       (simp_all add: loop_def Let_def case_MAIN_def case_FLASH_def case_IDLE_def split_beta
          hop_block_reject_counters [OF assms] hop_block_reject_counters [OF a] sampling_keeps)
  show "totalStrokes (snd (loop c e s)) = totalStrokes s"
    by (cases "currentState s")
       (simp_all add: loop_def Let_def case_MAIN_def case_FLASH_def case_IDLE_def split_beta
          hop_block_reject_counters [OF assms] hop_block_reject_counters [OF a] sampling_keeps)
  show "\<not> list_ex is_DrawFlash (fst (loop c e s))"
    by (cases "currentState s")
       (simp_all add: loop_def Let_def case_MAIN_def case_FLASH_def case_IDLE_def split_beta
          hop_block_reject_counters [OF assms] hop_block_reject_counters [OF a] drawMainScreen_def drawIdle_def)
qed

lemma signal_error_tick_fields:
  "millis signal_error_tick = 5" "millis_drawIdle signal_error_tick = 5"
  "acceleration signal_error_tick = None" "gyroscope signal_error_tick = None"
  "signal_from_buffer signal_error_tick sig = - 1"
  by (simp_all add: signal_error_tick_def tick_at_def)

subsection \<open>The ring buffer in a pass\<close>

lemma hop_block_ring:
  "imuBuffer (snd (hop_block b c e s)) = imuBuffer s"
  "bufIndex (snd (hop_block b c e s)) = bufIndex s"
  "sampleCount (snd (hop_block b c e s)) = sampleCount s"
  by (simp_all add: hop_block_def classify_block_ring)

lemma loop_ring:
  "imuBuffer (snd (loop c e s)) = imuBuffer (sampling c e s)"
  "bufIndex (snd (loop c e s)) = bufIndex (sampling c e s)"
  "sampleCount (snd (loop c e s)) = sampleCount (sampling c e s)"
  by (cases "currentState s";
      simp add: loop_def Let_def case_MAIN_def case_FLASH_def case_IDLE_def split_beta hop_block_ring)+

lemma unat_Suc_le: "unat (x + 1 :: 16 word) \<le> unat x + 1"
  by (simp add: unat_word_ariths)

lemma sampling_sampleCount_le:
  "unat (sampleCount (sampling c e s)) \<le> unat (sampleCount s) + (if sample_due e s then 1 else 0)"
  using unat_Suc_le [of "sampleCount s"]
  by (simp add: sampling_def readIMU_def Let_def split_beta)

lemma loop_calls_full:
  "list_ex is_RunInference (fst (loop c e s)) \<Longrightarrow>
   WINDOW_SAMPLES c \<le> unat (sampleCount (snd (loop c e s)))"
  by (simp add: loop_calls loop_ring hop_ready_def)

subsection \<open>The frame\<close>

lemma fill_row:
  "length pre = off \<Longrightarrow> m \<le> length rest \<Longrightarrow> m \<le> length row \<Longrightarrow>
   fold (\<lambda>j sig. sig[off + j := row ! j]) [0..<m] (pre @ rest) = pre @ take m row @ drop m rest"
proof (induction m)
  case 0
  then show ?case by simp
next
  case (Suc m)
  then have IH: "fold (\<lambda>j sig. sig[off + j := row ! j]) [0..<m] (pre @ rest) = pre @ take m row @ drop m rest"
    by simp
  have "(pre @ take m row @ drop m rest)[off + m := row ! m]
        = pre @ take m row @ (drop m rest)[0 := row ! m]"
    using Suc.prems by (simp add: list_update_append)
  also have "(drop m rest)[0 := row ! m] = row ! m # drop (Suc m) rest"
    using Suc.prems by (cases "drop m rest") (auto simp: drop_Suc dest: arg_cong [where f = tl] simp: drop_tl tl_drop)
  also have "pre @ take m row @ row ! m # drop (Suc m) rest = pre @ take (Suc m) row @ drop (Suc m) rest"
    using Suc.prems by (simp add: take_Suc_conv_app_nth)
  finally show ?case
    by (simp add: IH)
qed

lemma fill_rows:
  "n * a \<le> length sig0 \<Longrightarrow> (\<And>i. i < n \<Longrightarrow> a \<le> length (rows i)) \<Longrightarrow>
   fold (\<lambda>i sig. fold (\<lambda>j sig. sig[i * a + j := rows i ! j]) [0..<a] sig) [0..<n] sig0
   = concat (map (\<lambda>i. take a (rows i)) [0..<n]) @ drop (n * a) sig0"
proof (induction n)
  case 0
  then show ?case by simp
next
  case (Suc n)
  let ?pre = "concat (map (\<lambda>i. take a (rows i)) [0..<n])"
  have len: "length ?pre = n * a"
    using Suc.prems(2) by (induction n) (simp_all add: min_absorb2)
  have IH: "fold (\<lambda>i sig. fold (\<lambda>j sig. sig[i * a + j := rows i ! j]) [0..<a] sig) [0..<n] sig0
            = ?pre @ drop (n * a) sig0"
    using Suc by simp
  have "fold (\<lambda>i sig. fold (\<lambda>j sig. sig[i * a + j := rows i ! j]) [0..<a] sig) [0..<Suc n] sig0
        = fold (\<lambda>j sig. sig[n * a + j := rows n ! j]) [0..<a]
            (fold (\<lambda>i sig. fold (\<lambda>j sig. sig[i * a + j := rows i ! j]) [0..<a] sig) [0..<n] sig0)"
    by simp
  also have "\<dots> = fold (\<lambda>j sig. sig[n * a + j := rows n ! j]) [0..<a] (?pre @ drop (n * a) sig0)"
    by (simp only: IH)
  also have "\<dots> = ?pre @ take a (rows n) @ drop a (drop (n * a) sig0)"
    using Suc.prems by (intro fill_row len) simp_all
  also have "\<dots> = concat (map (\<lambda>i. take a (rows i)) [0..<Suc n]) @ drop (Suc n * a) sig0"
    by (simp add: add.commute)
  finally show ?case .
qed

lemma nth_concat_uniform:
  "\<forall>x\<in>set xs. length x = a \<Longrightarrow> i < length xs \<Longrightarrow> j < a \<Longrightarrow>
   concat xs ! (i * a + j) = xs ! i ! j"
proof (induction xs arbitrary: i)
  case Nil
  then show ?case by simp
next
  case (Cons x xs)
  show ?case
  proof (cases i)
    case 0
    with Cons.prems show ?thesis by (simp add: nth_append)
  next
    case (Suc k)
    with Cons.prems have "concat xs ! (k * a + j) = xs ! k ! j"
      by (intro Cons.IH) simp_all
    with Suc Cons.prems show ?thesis by (simp add: nth_append add.assoc)
  qed
qed

lemma length_concat_uniform:
  "\<forall>x\<in>set xs. length x = a \<Longrightarrow> length (concat xs) = length xs * a"
  by (induction xs) simp_all

lemma map_ring_rotate:
  "b < length buf \<Longrightarrow> map (\<lambda>i. buf ! ((b + i) mod length buf)) [0..<length buf] = rotate b buf"
  by (rule nth_equalityI) (simp_all add: nth_rotate)

lemma ring_ok_rows:
  "ring_ok c s \<Longrightarrow> i < WINDOW_SAMPLES c \<Longrightarrow> length (imuBuffer s ! i) = AXIS_COUNT c"
  by (simp add: ring_ok_def list_all_length)

lemma assemble_sig_concat:
  assumes "wf_config c" "ring_ok c s"
  shows "assemble_sig c s = concat (rotate (unat (bufIndex s)) (imuBuffer s))"
proof -
  let ?W = "WINDOW_SAMPLES c" and ?A = "AXIS_COUNT c" and ?b = "unat (bufIndex s)"
  let ?rows = "\<lambda>i. imuBuffer s ! ((?b + i) mod ?W)"
  have W: "0 < ?W" "?W * ?A = WINDOW_SIZE c" "length (imuBuffer s) = ?W" "?b < ?W"
    using assms by (simp_all add: wf_config_def ring_ok_def)
  have rows: "length (?rows i) = ?A" for i
    using W(1) by (intro ring_ok_rows [OF assms(2)]) simp
  have "assemble_sig c s =
          fold (\<lambda>i sig. fold (\<lambda>j sig. sig[i * ?A + j := ?rows i ! j]) [0..<?A] sig) [0..<?W]
            (replicate (WINDOW_SIZE c) (Finite 0))"
    by (simp add: assemble_sig_def Let_def)
  also have "\<dots> = concat (map (\<lambda>i. take ?A (?rows i)) [0..<?W]) @ drop (?W * ?A) (replicate (WINDOW_SIZE c) (Finite 0))"
    by (rule fill_rows) (simp_all add: W rows)
  also have "\<dots> = concat (map ?rows [0..<?W])"
    by (simp add: W rows)
  also have "map ?rows [0..<?W] = rotate ?b (imuBuffer s)"
    using map_ring_rotate [of ?b "imuBuffer s"] W by simp
  finally show ?thesis .
qed

lemma rotate_rows:
  assumes "ring_ok c s"
  shows "\<forall>x\<in>set (rotate (unat (bufIndex s)) (imuBuffer s)). length x = AXIS_COUNT c"
  using assms by (simp add: ring_ok_def list_all_iff)

lemma assemble_sig_length:
  assumes "wf_config c" "ring_ok c s"
  shows "length (assemble_sig c s) = WINDOW_SAMPLES c * AXIS_COUNT c"
  using length_concat_uniform [OF rotate_rows [OF assms(2)]] assms(2)
  by (simp add: assemble_sig_concat [OF assms] ring_ok_def)

lemma assemble_sig_nth:
  assumes "wf_config c" "ring_ok c s" "i < WINDOW_SAMPLES c" "j < AXIS_COUNT c"
  shows "assemble_sig c s ! (i * AXIS_COUNT c + j) =
           imuBuffer s ! ((unat (bufIndex s) + i) mod WINDOW_SAMPLES c) ! j"
proof -
  have l: "length (imuBuffer s) = WINDOW_SAMPLES c" using assms(2) by (simp add: ring_ok_def)
  have "assemble_sig c s ! (i * AXIS_COUNT c + j) = rotate (unat (bufIndex s)) (imuBuffer s) ! i ! j"
    unfolding assemble_sig_concat [OF assms(1,2)]
    using assms(3,4) l by (intro nth_concat_uniform rotate_rows [OF assms(2)]) simp_all
  then show ?thesis using assms(3) l by (simp add: nth_rotate)
qed

lemma unat_cursor: "n < 65536 \<Longrightarrow> unat (of_nat n :: 16 word) = n"
  by (simp add: unat_of_nat)

lemma readIMU_ring:
  "imuBuffer (readIMU c e s) = (imuBuffer s)[unat (bufIndex s) := written_row e s]"
  "bufIndex (readIMU c e s) = of_nat ((unat (bufIndex s) + 1) mod WINDOW_SAMPLES c)"
  by (simp_all add: readIMU_def written_row_def Let_def split_beta)

lemma length_written_row: "length (written_row e s) = length (imuBuffer s ! unat (bufIndex s))"
  by (simp add: written_row_def Let_def split_beta)

lemma readIMU_ring_ok:
  assumes "wf_config c" "ring_ok c s"
  shows "ring_ok c (readIMU c e s)"
proof -
  have W: "0 < WINDOW_SAMPLES c" "WINDOW_SAMPLES c < 65536" using assms(1) by (simp_all add: wf_config_def)
  then have "(unat (bufIndex s) + 1) mod WINDOW_SAMPLES c < 65536"
    by (meson less_trans mod_less_divisor)
  then have "unat (of_nat ((unat (bufIndex s) + 1) mod WINDOW_SAMPLES c) :: 16 word) < WINDOW_SAMPLES c"
    using W by (simp add: unat_cursor)
  moreover have "length (written_row e s) = AXIS_COUNT c"
    using assms(2) by (simp add: length_written_row ring_ok_def list_all_length)
  ultimately show ?thesis
    using assms(2) by (auto simp: ring_ok_def readIMU_ring list_all_iff dest: set_update_subset_insert [THEN subsetD])
qed

lemma rotate_push:
  assumes "b < length buf"
  shows "rotate ((b + 1) mod length buf) (buf[b := r]) = tl (rotate b buf) @ [r]"
proof (rule nth_equalityI)
  show "length (rotate ((b + 1) mod length buf) (buf[b := r])) = length (tl (rotate b buf) @ [r])"
    using assms by simp
next
  fix k assume "k < length (rotate ((b + 1) mod length buf) (buf[b := r]))"
  then have k: "k < length buf" by simp
  let ?n = "length buf"
  let ?p = "(b + 1 + k) mod ?n"
  have "((b + 1) mod ?n + k) mod ?n = ?p"
    by (simp only: mod_add_left_eq)
  then have lhs: "rotate ((b + 1) mod ?n) (buf[b := r]) ! k = (buf[b := r]) ! ?p"
    using k by (simp only: nth_rotate length_list_update)
  show "rotate ((b + 1) mod length buf) (buf[b := r]) ! k = (tl (rotate b buf) @ [r]) ! k"
  proof (cases "k = ?n - 1")
    case True
    then have "b + 1 + k = b + ?n" using k by simp
    then have "?p = b" using assms by (simp only: mod_add_self2 mod_less)
    then have "(buf[b := r]) ! ?p = r" using assms by (simp only: nth_list_update_eq)
    moreover have "(tl (rotate b buf) @ [r]) ! k = r"
      using True k by (simp add: nth_append)
    ultimately show ?thesis by (simp only: lhs)
  next
    case False
    then have k': "Suc k < ?n" using k by simp
    have ne: "?p \<noteq> b"
    proof (cases "b + 1 + k < ?n")
      case True
      then show ?thesis by simp
    next
      case False
      then have "(b + 1 + k) mod ?n = (b + 1 + k - ?n) mod ?n"
        by (simp add: le_mod_geq)
      also have "\<dots> = b + 1 + k - ?n"
        using assms k' by simp
      finally show ?thesis using k' False by simp
    qed
    then have "(buf[b := r]) ! ?p = buf ! ?p" by (simp only: nth_list_update_neq not_sym)
    moreover have kl: "k < length (tl (rotate b buf))"
      using k' by simp
    moreover have "(tl (rotate b buf) @ [r]) ! k = tl (rotate b buf) ! k"
      using kl by (simp only: nth_append if_True)
    moreover have "tl (rotate b buf) ! k = rotate b buf ! Suc k"
      using kl by (rule nth_tl)
    moreover have "rotate b buf ! Suc k = buf ! ((b + Suc k) mod ?n)"
      using k' by (simp only: nth_rotate)
    moreover have "b + Suc k = b + 1 + k" by simp
    ultimately show ?thesis by (simp only: lhs)
  qed
qed

lemma readIMU_window:
  assumes "wf_config c" "ring_ok c s"
  shows "rotate (unat (bufIndex (readIMU c e s))) (imuBuffer (readIMU c e s)) =
           tl (rotate (unat (bufIndex s)) (imuBuffer s)) @ [written_row e s]"
proof -
  have W: "WINDOW_SAMPLES c < 65536" "length (imuBuffer s) = WINDOW_SAMPLES c"
      "unat (bufIndex s) < length (imuBuffer s)"
    using assms by (simp_all add: wf_config_def ring_ok_def)
  then have "(unat (bufIndex s) + 1) mod WINDOW_SAMPLES c < 65536"
    by (metis less_trans mod_less_divisor not_less_zero not_gr_zero)
  then have "unat (bufIndex (readIMU c e s)) = (unat (bufIndex s) + 1) mod length (imuBuffer s)"
    using W by (simp only: readIMU_ring unat_cursor)
  then show ?thesis
    using rotate_push [OF W(3), of "written_row e s"] by (simp only: readIMU_ring)
qed

lemma numbered_window_fields:
  "imuBuffer numbered_window =
     map (\<lambda>k. [Finite (of_nat k), Finite 0, Finite 0, Finite 0, Finite 0, Finite 0]) [0..<25]"
  "bufIndex numbered_window = 3"
  "sampleCount numbered_window = 25"
  by (simp_all add: numbered_window_def full_window_fields)

lemma ring_ok_numbered_window: "ring_ok table_tennis_2 numbered_window"
  by (simp add: ring_ok_def numbered_window_fields table_tennis_2_macros list_all_iff)

subsection \<open>Calm ticks\<close>

lemma written_row_nth:
  assumes "6 \<le> length (imuBuffer s ! unat (bufIndex s))"
  shows "written_row e s ! 0 =
           fmul (case acceleration e of Some (ax, ay, az) \<Rightarrow> ax | None \<Rightarrow> Finite 0) CONVERT_G_TO_MS2"
    and "written_row e s ! Suc 0 =
           fmul (case acceleration e of Some (ax, ay, az) \<Rightarrow> ay | None \<Rightarrow> Finite 0) CONVERT_G_TO_MS2"
    and "written_row e s ! 2 =
           fmul (case acceleration e of Some (ax, ay, az) \<Rightarrow> az | None \<Rightarrow> Finite 0) CONVERT_G_TO_MS2"
proof -
  let ?r = "imuBuffer s ! unat (bufIndex s)"
  have l: "?r \<noteq> []" "Suc 0 < length ?r" "2 < length ?r" using assms by auto
  show "written_row e s ! 0 =
           fmul (case acceleration e of Some (ax, ay, az) \<Rightarrow> ax | None \<Rightarrow> Finite 0) CONVERT_G_TO_MS2"
    using l by (simp add: written_row_def Let_def split_beta split: option.splits)
  show "written_row e s ! Suc 0 =
           fmul (case acceleration e of Some (ax, ay, az) \<Rightarrow> ay | None \<Rightarrow> Finite 0) CONVERT_G_TO_MS2"
    using l by (simp add: written_row_def Let_def split_beta split: option.splits)
  show "written_row e s ! 2 =
           fmul (case acceleration e of Some (ax, ay, az) \<Rightarrow> az | None \<Rightarrow> Finite 0) CONVERT_G_TO_MS2"
    using l by (simp add: written_row_def Let_def split_beta split: option.splits)
qed

lemma calm_row:
  assumes "calm e" "6 \<le> length (imuBuffer s ! unat (bufIndex s))"
  shows "\<not> above_threshold (written_row e s ! 0) (written_row e s ! Suc 0) (written_row e s ! 2)"
proof (cases "acceleration e")
  case None
  then show ?thesis
    by (simp add: written_row_nth [OF assms(2)] zero_reading_not_above)
next
  case (Some a)
  obtain ax ay az where a: "a = (ax, ay, az)" by (cases a) auto
  then show ?thesis
    using assms(1) Some by (simp add: written_row_nth [OF assms(2)] calm_def)
qed

lemma readIMU_calm:
  assumes "wf_config c" "ring_ok c s" "calm e" "\<not> accelAboveThreshold c s"
  shows "\<not> accelAboveThreshold c (readIMU c e s)"
proof -
  let ?p = "unat (bufIndex s)"
  let ?buf = "(imuBuffer s)[?p := written_row e s]"
  have p: "?p < WINDOW_SAMPLES c" "length (imuBuffer s) = WINDOW_SAMPLES c"
    using assms(2) by (simp_all add: ring_ok_def)
  have "6 \<le> length (imuBuffer s ! ?p)"
    using ring_ok_rows [OF assms(2) p(1)] assms(1) by (simp add: wf_config_def)
  note r = calm_row [OF assms(3) this]
  have "\<not> above_threshold (?buf ! i ! 0) (?buf ! i ! Suc 0) (?buf ! i ! 2)"
    if "i < WINDOW_SAMPLES c" for i
  proof (cases "i = ?p")
    case True
    then show ?thesis using r p by simp
  next
    case False
    then show ?thesis using assms(4) that by (simp add: accelAboveThreshold_iff)
  qed
  then show ?thesis
    by (simp add: accelAboveThreshold_iff readIMU_ring)
qed

lemma sampling_readIMU:
  "sampling c e s = (if sample_due e s then readIMU c e (s\<lparr>lastIMUread := millis e\<rparr>) else s)"
  by (simp add: sampling_def)

lemma ring_ok_lastIMUread [simp]: "ring_ok c (s\<lparr>lastIMUread := t\<rparr>) = ring_ok c s"
  by (simp add: ring_ok_def)

lemma accelAboveThreshold_lastIMUread [simp]:
  "accelAboveThreshold c (s\<lparr>lastIMUread := t\<rparr>) = accelAboveThreshold c s"
  by (simp add: accelAboveThreshold_def)

lemma sampling_calm_main:
  assumes "wf_config c" "calm_main c t s" "calm e"
  shows "calm_main c t (sampling c e s)"
  using assms readIMU_ring_ok [of c "s\<lparr>lastIMUread := millis e\<rparr>" e]
    readIMU_calm [of c "s\<lparr>lastIMUread := millis e\<rparr>" e] sampling_keeps(5) [of c e s]
    sampling_currentState [of c e s]
  by (auto simp: calm_main_def sampling_readIMU simp del: sampling_currentState)

lemma accelAboveThreshold_hop_spent [simp]:
  "accelAboveThreshold c (hop_spent c s) = accelAboveThreshold c s"
  by (simp add: accelAboveThreshold_def hop_spent_def)

lemma calm_main_rejects:
  "calm_main c t s \<Longrightarrow> \<not> (hop_ready c s \<and> decision c (runInference c e (hop_spent c s)) (hop_spent c s))"
  by (simp add: calm_main_def decision_def)

lemma case_MAIN_calm:
  assumes "calm_main c t s" "millis e - t < IDLE_TIMEOUT_MS"
  shows "calm_main c t (snd (case_MAIN c e s))"
    and "counters (snd (case_MAIN c e s)) = counters s"
    and "totalStrokes (snd (case_MAIN c e s)) = totalStrokes s"
    and "\<not> list_ex is_DrawFlash (fst (case_MAIN c e s))"
    and "lastIMUread (snd (case_MAIN c e s)) = lastIMUread s"
proof -
  note r = hop_block_reject_counters [OF calm_main_rejects [OF assms(1)], of True e]
  have t: "\<not> IDLE_TIMEOUT_MS \<le> millis e - lastStrokeTime (snd (hop_block True c e s))"
    using assms by (simp add: lastStrokeTime_hop_block calm_main_def)
  have k: "ring_ok c (snd (hop_block True c e s)) = ring_ok c s"
    "accelAboveThreshold c (snd (hop_block True c e s)) = accelAboveThreshold c s"
    by (simp_all add: ring_ok_def accelAboveThreshold_def hop_block_ring)
  have l: "lastIMUread (snd (hop_block True c e s)) = lastIMUread s"
    by (simp add: hop_block_def classify_block_stamps)
  show "calm_main c t (snd (case_MAIN c e s))"
    using assms(1) t r k
    by (simp add: case_MAIN_def Let_def split_beta calm_main_def lastStrokeTime_hop_block
          ring_ok_def accelAboveThreshold_def)
  show "counters (snd (case_MAIN c e s)) = counters s"
    using t r by (simp add: case_MAIN_def Let_def split_beta)
  show "totalStrokes (snd (case_MAIN c e s)) = totalStrokes s"
    using t r by (simp add: case_MAIN_def Let_def split_beta)
  show "\<not> list_ex is_DrawFlash (fst (case_MAIN c e s))"
    using t r by (simp add: case_MAIN_def Let_def split_beta drawMainScreen_def)
  show "lastIMUread (snd (case_MAIN c e s)) = lastIMUread s"
    using t l by (simp add: case_MAIN_def Let_def split_beta)
qed

lemma loop_calm:
  assumes "wf_config c" "calm_main c t s" "calm e" "millis e - t < IDLE_TIMEOUT_MS"
  shows "calm_main c t (snd (loop c e s))"
    and "counters (snd (loop c e s)) = counters s"
    and "totalStrokes (snd (loop c e s)) = totalStrokes s"
    and "\<not> list_ex is_DrawFlash (fst (loop c e s))"
    and "lastIMUread (snd (loop c e s)) = lastIMUread (sampling c e s)"
proof -
  have m: "loop c e s = case_MAIN c e (sampling c e s)"
    using assms(2) by (simp add: loop_MAIN calm_main_def)
  note s = sampling_calm_main [OF assms(1,2,3)]
  show "calm_main c t (snd (loop c e s))"
    and "counters (snd (loop c e s)) = counters s"
    and "totalStrokes (snd (loop c e s)) = totalStrokes s"
    and "\<not> list_ex is_DrawFlash (fst (loop c e s))"
    and "lastIMUread (snd (loop c e s)) = lastIMUread (sampling c e s)"
    using case_MAIN_calm [OF s assms(4)] by (simp_all add: m sampling_keeps)
qed

subsection \<open>Filling the window\<close>

lemma unat_Suc_16: "unat x < 65535 \<Longrightarrow> unat (x + 1 :: 16 word) = Suc (unat x)"
  by (simp add: unat_word_ariths)

lemma sampling_due_counts:
  assumes "sample_due e s" "unat (sampleCount s) < WINDOW_SAMPLES c" "WINDOW_SAMPLES c < 65536"
    and "unat (sampleCounter s) < 65535"
  shows "unat (sampleCount (sampling c e s)) = Suc (unat (sampleCount s))"
    and "unat (sampleCounter (sampling c e s)) = Suc (unat (sampleCounter s))"
    and "lastIMUread (sampling c e s) = millis e"
  using assms by (simp_all add: sampling_def readIMU_def Let_def split_beta unat_Suc_16)

lemma loop_fill:
  assumes "wf_config c" "calm_main c t s" "sample_due e s"
    and "unat (sampleCount s) = n" "unat (sampleCounter s) = n" "n < WINDOW_SAMPLES c"
  shows "list_ex is_RunInference (fst (loop c e s)) \<longleftrightarrow> Suc n = WINDOW_SAMPLES c"
    and "unat (sampleCount (snd (loop c e s))) = Suc n"
    and "Suc n < WINDOW_SAMPLES c \<Longrightarrow> unat (sampleCounter (snd (loop c e s))) = Suc n"
proof -
  have W: "WINDOW_SAMPLES c < 65536" using assms(1) by (simp add: wf_config_def)
  have m: "currentState s = STATE_MAIN" using assms(2) by (simp add: calm_main_def)
  have c: "unat (sampleCount (sampling c e s)) = Suc n" "unat (sampleCounter (sampling c e s)) = Suc n"
    using sampling_due_counts [OF assms(3), of c] assms(4,5,6) W by simp_all
  have h: "HOP_SAMPLES c \<le> WINDOW_SAMPLES c" by (simp add: HOP_SAMPLES_def)
  show r: "list_ex is_RunInference (fst (loop c e s)) \<longleftrightarrow> Suc n = WINDOW_SAMPLES c"
    using assms(6) h by (auto simp: loop_calls m hop_ready_def c)
  show "unat (sampleCount (snd (loop c e s))) = Suc n"
    by (simp add: loop_ring c)
  show "unat (sampleCounter (snd (loop c e s))) = Suc n" if "Suc n < WINDOW_SAMPLES c"
    using that c by (simp add: loop_sampleCounter hop_ready_def)
qed

lemma length_run [simp]: "length (run c es s) = length es"
  by (induction es arbitrary: s) (simp_all add: Let_def)

lemma run_fill:
  assumes "wf_config c"
  shows "calm_main c t s \<Longrightarrow> paced (lastIMUread s) es \<Longrightarrow>
         \<forall>e\<in>set es. calm e \<and> millis e - t < IDLE_TIMEOUT_MS \<Longrightarrow>
         unat (sampleCount s) = n \<Longrightarrow> unat (sampleCounter s) = n \<Longrightarrow>
         n + length es \<le> WINDOW_SAMPLES c \<Longrightarrow> k < length es \<Longrightarrow>
         (list_ex is_RunInference (fst (run c es s ! k)) \<longleftrightarrow> Suc (n + k) = WINDOW_SAMPLES c) \<and>
         \<not> list_ex is_DrawFlash (fst (run c es s ! k)) \<and>
         counters (snd (run c es s ! k)) = counters s \<and>
         totalStrokes (snd (run c es s ! k)) = totalStrokes s \<and>
         currentState (snd (run c es s ! k)) = STATE_MAIN"
proof (induction es arbitrary: s n k)
  case Nil
  then show ?case by simp
next
  case (Cons e es)
  let ?s' = "snd (loop c e s)"
  have due: "sample_due e s" using Cons.prems(2) by (simp add: sample_due_def)
  have e: "calm e" "millis e - t < IDLE_TIMEOUT_MS" using Cons.prems(3) by simp_all
  have n: "n < WINDOW_SAMPLES c" using Cons.prems(6) by simp
  note l = loop_calm [OF assms Cons.prems(1) e]
  note f = loop_fill [OF assms Cons.prems(1) due Cons.prems(4,5) n]
  show ?case
  proof (cases k)
    case 0
    then show ?thesis
      using l f(1) by (simp add: Let_def calm_main_def)
  next
    case (Suc j)
    then have j: "j < length es" using Cons.prems(7) by simp
    then have n': "Suc n < WINDOW_SAMPLES c" using Cons.prems(6) by simp
    have "lastIMUread ?s' = millis e"
      using l(5) due by (simp add: sampling_def readIMU_def Let_def split_beta)
    then have p: "paced (lastIMUread ?s') es" using Cons.prems(2) by simp
    have a: "\<forall>e\<in>set es. calm e \<and> millis e - t < IDLE_TIMEOUT_MS" using Cons.prems(3) by simp
    have b: "Suc n + length es \<le> WINDOW_SAMPLES c" using Cons.prems(6) by simp
    from Cons.IH [OF l(1) p a f(2) f(3) [OF n'] b j] Suc l(2,3)
    show ?thesis by (simp add: Let_def)
  qed
qed

lemma setup_calm_main:
  assumes "wf_config c" "setup_sketch c True True (t1, t2, t3, t4) = Some s0"
  shows "calm_main c t4 s0" and "lastIMUread s0 = t1" and "sampleCount s0 = 0" and "sampleCounter s0 = 0"
    and "counters s0 = [0, 0, 0, 0, 0]" and "totalStrokes s0 = 0"
proof -
  have s0: "s0 = (initial_globals c)\<lparr>lastIMUread := t1, lastDisplay := t2, lastIdleAnim := t3,
                 lastStrokeTime := t4, currentState := STATE_MAIN\<rparr>"
    using assms(2) by (simp add: setup_sketch_def)
  have W: "0 < WINDOW_SAMPLES c" using assms(1) by (simp add: wf_config_def)
  have A: "0 < AXIS_COUNT c" "Suc 0 < AXIS_COUNT c" "2 < AXIS_COUNT c"
    using assms(1) by (simp_all add: wf_config_def)
  have "\<not> accelAboveThreshold c s0"
    using A by (simp add: accelAboveThreshold_iff s0 initial_globals_def zero_reading_not_above)
  moreover have "ring_ok c s0"
    using W by (simp add: ring_ok_def s0 initial_globals_def list_all_iff)
  ultimately show "calm_main c t4 s0"
    by (simp add: calm_main_def s0 initial_globals_def)
  show "lastIMUread s0 = t1" and "sampleCount s0 = 0" and "sampleCounter s0 = 0"
    and "counters s0 = [0, 0, 0, 0, 0]" and "totalStrokes s0 = 0"
    by (simp_all add: s0 initial_globals_def counters_def)
qed

lemma setup_run_fill:
  assumes "wf_config c" "setup_sketch c True True (t1, t2, t3, t4) = Some s0"
    and "paced t1 es" and "\<forall>e\<in>set es. calm e \<and> millis e - t4 < IDLE_TIMEOUT_MS"
    and "length es \<le> WINDOW_SAMPLES c" and "k < length es"
  shows "(list_ex is_RunInference (fst (run c es s0 ! k)) \<longleftrightarrow> Suc k = WINDOW_SAMPLES c) \<and>
         \<not> list_ex is_DrawFlash (fst (run c es s0 ! k)) \<and>
         counters (snd (run c es s0 ! k)) = [0, 0, 0, 0, 0] \<and>
         totalStrokes (snd (run c es s0 ! k)) = 0 \<and>
         currentState (snd (run c es s0 ! k)) = STATE_MAIN"
proof -
  note s = setup_calm_main [OF assms(1,2)]
  have p: "paced (lastIMUread s0) es" using assms(3) s(2) by simp
  have z: "unat (sampleCount s0) = 0" "unat (sampleCounter s0) = 0" using s(3,4) by simp_all
  have l: "0 + length es \<le> WINDOW_SAMPLES c" using assms(5) by simp
  from run_fill [OF assms(1) s(1) p assms(4) z l assms(6)] s(5,6)
  show ?thesis by simp
qed

lemma length_calm_ticks [simp]: "length (calm_ticks n t) = n"
  by (induction n arbitrary: t) simp_all

lemma paced_calm_ticks: "paced t (calm_ticks n t)"
  by (induction n arbitrary: t) (simp_all add: tick_at_fields SAMPLE_INTERVAL_MS_def)

lemma calm_calm_ticks: "e \<in> set (calm_ticks n t) \<Longrightarrow> calm e"
  by (induction n arbitrary: t) (auto simp: calm_def tick_at_fields rest_reading_not_above)

lemma smash_calm_ticks:
  "e \<in> set (calm_ticks n t) \<Longrightarrow>
   runInference table_tennis_2 e s = \<lparr>index = 4, confidence = round32 (9 / 10)\<rparr>"
  by (induction n arbitrary: t) (auto simp: runInference_smash)

lemma millis_calm_ticks:
  "unat t + 20 * n < 10000 \<Longrightarrow> e \<in> set (calm_ticks n t) \<Longrightarrow> millis e < 10000"
proof (induction n arbitrary: t)
  case 0
  then show ?case by simp
next
  case (Suc n)
  have u: "unat (t + 20) = unat t + 20"
    using Suc.prems(1) by (simp add: unat_word_ariths)
  show ?case
  proof (cases "e = tick_at (t + 20) (Some (Finite 0, Finite 0, Finite 1)) 0 smash_values")
    case True
    then show ?thesis using u Suc.prems(1) by (simp add: tick_at_fields word_less_nat_alt)
  next
    case False
    then have "e \<in> set (calm_ticks n (t + 20))" using Suc.prems(2) by simp
    moreover have "unat (t + 20) + 20 * n < 10000" using u Suc.prems(1) by simp
    ultimately show ?thesis by (rule Suc.IH [rotated])
  qed
qed

lemma setup_boot: "setup_sketch table_tennis_2 True True (0, 0, 0, 0) = Some boot"
  by (simp add: setup_sketch_def boot_def initial_globals_def)

lemma calm_ticks_hyp:
  "n \<le> 25 \<Longrightarrow> \<forall>e\<in>set (calm_ticks n 0). calm e \<and> millis e - 0 < IDLE_TIMEOUT_MS"
  using millis_calm_ticks [of 0 n] by (auto simp: calm_calm_ticks IDLE_TIMEOUT_MS_def)

section \<open>The claims\<close>

subsection \<open>C1: the decision gate\<close>

text \<open>
  Claim C1. In the classification block (the one of \<open>STATE_MAIN\<close> and \<open>STATE_IDLE\<close>,
  which ends with \<open>currentState=STATE_FLASH\<close>, and the one of \<open>STATE_FLASH\<close>, entered
  in that state), for every result \<open>r\<close> that \<open>runInference\<close> returns on the window: the
  event is accepted exactly when the confidence is strictly above 0.50, the label is not the
  idle label (the last one) and the plausibility gate passes on the same window. On
  acceptance the flash is drawn, the counter of the label and the total go up by one and the
  state is \<open>STATE_FLASH\<close>; otherwise nothing changes but the hop counter, which the block
  has reduced before the classifier ran: no counter moves and the state is not touched.
\<close>

theorem decision_gate_conjunctive:
  assumes "1 \<le> EI_CLASSIFIER_LABEL_COUNT c" "EI_CLASSIFIER_LABEL_COUNT c \<le> 6"
    and "to_flash \<or> currentState s = STATE_FLASH"
  shows "let w = hop_spent c s;
             r = runInference c e w;
             (ev, s') = classify_block to_flash c e s
         in if fgt (confidence r) (Finite (1 / 2)) \<and> index r \<noteq> IDLE_LABEL_INDEX c \<and> accelAboveThreshold c w
            then ev = [RunInference (assemble_sig c w), DrawFlash (index r) (flash_message (index r) s)] \<and>
                 counters s' = (counters s)[unat (index r) := counters s ! unat (index r) + 1] \<and>
                 totalStrokes s' = totalStrokes s + 1 \<and>
                 currentState s' = STATE_FLASH
            else ev = [RunInference (assemble_sig c w)] \<and> s' = w"
proof (cases "decision c (runInference c e (hop_spent c s)) (hop_spent c s)")
  case True
  then have "fgt (confidence (runInference c e (hop_spent c s))) (Finite (1 / 2)) \<and>
             index (runInference c e (hop_spent c s)) \<noteq> IDLE_LABEL_INDEX c \<and>
             accelAboveThreshold c (hop_spent c s)"
    using decision_iff [OF assms(1,2)] by simp
  then show ?thesis
    using classify_block_accepted [OF True assms(1,2), of to_flash] assms(3)
    by (auto simp: split_beta Let_def)
next
  case False
  then have "\<not> (fgt (confidence (runInference c e (hop_spent c s))) (Finite (1 / 2)) \<and>
             index (runInference c e (hop_spent c s)) \<noteq> IDLE_LABEL_INDEX c \<and>
             accelAboveThreshold c (hop_spent c s))"
    using decision_iff [OF assms(1,2)] by simp
  then show ?thesis
    using classify_block_reject [OF False, of to_flash]
    by (simp add: split_beta Let_def)
qed

theorem decision_gate_conjunctive_witness:
  "let (ev, s') = classify_block True table_tennis_2 (tick_at 500 None 0 smash_values)
                    (full_window STATE_MAIN swing_row 13)
   in totalStrokes s' = 1 \<and> counters s' = [0, 0, 0, 0, 1] \<and> currentState s' = STATE_FLASH"
  using decision_gate_conjunctive
          [of table_tennis_2 True "full_window STATE_MAIN swing_row 13"
              "tick_at 500 None 0 smash_values"]
  by (simp add: table_tennis_2_macros runInference_smash fgt_literals swing_window_gate swing_window_gate' full_window_fields
        split_beta Let_def)

subsection \<open>C2: no classification before the window is full\<close>

text \<open>
  Claim C2. In the passes of \<open>loop\<close> over any list of ticks, from any globals (whatever
  the presentation state): a pass that calls \<open>runInference\<close> leaves \<open>sampleCount\<close> at
  least \<open>WINDOW_SAMPLES\<close>, and \<open>sampleCount\<close> is not written between the sampling and
  the end of a pass, so this is its value at the call. Moreover \<open>sampleCount\<close> grows by at
  most one for each sample taken: when the passes start with \<open>sampleCount\<close> at 0, as after
  \<open>setup\<close>, at least \<open>WINDOW_SAMPLES\<close> samples have been written before the first call.
\<close>

theorem no_inference_before_window_full:
  assumes "k < length es" and "list_ex is_RunInference (fst (run c es s ! k))"
  shows "WINDOW_SAMPLES c \<le> unat (sampleCount (snd (run c es s ! k))) \<and>
         WINDOW_SAMPLES c \<le> unat (sampleCount s) + samples_taken c (take (Suc k) es) s"
  using assms
proof (induction es arbitrary: s k)
  case Nil
  then show ?case by simp
next
  case (Cons e es)
  let ?s' = "snd (loop c e s)"
  have step: "unat (sampleCount ?s') \<le> unat (sampleCount s) + (if sample_due e s then 1 else 0)"
    using sampling_sampleCount_le [of c e s] by (simp add: loop_ring)
  show ?case
  proof (cases k)
    case 0
    with Cons.prems have "list_ex is_RunInference (fst (loop c e s))"
      by (simp add: Let_def)
    then have "WINDOW_SAMPLES c \<le> unat (sampleCount ?s')"
      by (rule loop_calls_full)
    with 0 step show ?thesis by (simp add: Let_def)
  next
    case (Suc j)
    with Cons.prems have j: "j < length es" "list_ex is_RunInference (fst (run c es ?s' ! j))"
      by (simp_all add: Let_def)
    from Cons.IH [OF j] Suc step show ?thesis
      by (simp add: Let_def)
  qed
qed

theorem no_inference_before_window_full_witness:
  "let es = [tick_at 5 None 0 idle_values]; s = full_window STATE_IDLE rest_row 14
   in 0 < length es \<and> list_ex is_RunInference (fst (run table_tennis_2 es s ! 0)) \<and>
      unat (sampleCount (snd (run table_tennis_2 es s ! 0))) = 25 \<and>
      WINDOW_SAMPLES table_tennis_2 = 25 \<and>
      unat (sampleCount s) + samples_taken table_tennis_2 (take (Suc 0) es) s = 25"
proof -
  let ?e = "tick_at 5 None 0 idle_values" and ?s = "full_window STATE_IDLE rest_row 14"
  have nd: "\<not> sample_due ?e ?s"
    by (simp add: sample_due_def tick_at_fields full_window_fields SAMPLE_INTERVAL_MS_def)
  have c: "list_ex is_RunInference (fst (run table_tennis_2 [?e] ?s ! 0))"
    by (simp add: Let_def loop_calls sampling_not_due [OF nd] full_window_fields hop_ready_def
          table_tennis_2_macros)
  have k: "0 < length [?e]" by simp
  show ?thesis
    using no_inference_before_window_full [OF k c] c nd
    by (simp add: Let_def loop_ring sampling_not_due [OF nd] full_window_fields table_tennis_2_macros)
qed

subsection \<open>C3: the hop counter\<close>

text \<open>
  Claim C3. Whenever a pass of \<open>loop\<close> calls the classifier, in whichever state, the
  hop counter it leaves is the hop counter after sampling minus \<open>HOP_SAMPLES\<close>, which was
  at most that counter: the subtraction is exact, nothing is reset or clamped, and the
  ticks beyond the hop stay in the counter.
\<close>

theorem hop_counter_subtracts_hop:
  assumes "list_ex is_RunInference (fst (loop c e s))"
  shows "HOP_SAMPLES c \<le> unat (sampleCounter (sampling c e s)) \<and>
         unat (sampleCounter (snd (loop c e s))) =
           unat (sampleCounter (sampling c e s)) - HOP_SAMPLES c"
proof -
  let ?s1 = "sampling c e s"
  from assms have r: "currentState s \<noteq> STATE_OPENING" "hop_ready c ?s1"
    by (simp_all add: loop_calls)
  then have h: "HOP_SAMPLES c \<le> unat (sampleCounter ?s1)"
    by (simp add: hop_ready_def)
  then have u: "unat (of_nat (HOP_SAMPLES c) :: 16 word) = HOP_SAMPLES c"
    by (rule le_unat_uoi)
  then have "(of_nat (HOP_SAMPLES c) :: 16 word) \<le> sampleCounter ?s1"
    using h by (simp add: word_le_nat_alt)
  then have "unat (sampleCounter ?s1 - of_nat (HOP_SAMPLES c)) = unat (sampleCounter ?s1) - HOP_SAMPLES c"
    using u by (simp add: unat_sub)
  then show ?thesis using r h by (simp add: loop_sampleCounter)
qed

theorem hop_counter_subtracts_hop_witness:
  "list_ex is_RunInference
     (fst (loop table_tennis_2 (tick_at 5 None 0 idle_values) (full_window STATE_IDLE rest_row 14)))
   \<and> unat (sampleCounter
        (snd (loop table_tennis_2 (tick_at 5 None 0 idle_values)
                (full_window STATE_IDLE rest_row 14)))) = 1"
proof -
  have nd: "\<not> sample_due (tick_at 5 None 0 idle_values) (full_window STATE_IDLE rest_row 14)"
    by (simp add: sample_due_def tick_at_def full_window_fields SAMPLE_INTERVAL_MS_def)
  have c: "list_ex is_RunInference
             (fst (loop table_tennis_2 (tick_at 5 None 0 idle_values)
                     (full_window STATE_IDLE rest_row 14)))"
    by (simp add: loop_calls sampling_not_due [OF nd] full_window_fields hop_ready_def
          table_tennis_2_macros)
  show ?thesis
    using hop_counter_subtracts_hop [OF c] c
    by (simp add: sampling_not_due [OF nd] full_window_fields table_tennis_2_macros)
qed

subsection \<open>C4: the frame handed to the classifier\<close>

text \<open>
  Claim C4. On a configuration and a ring buffer of the right shape (in particular one with
  \<open>sampleCount\<close> at \<open>WINDOW_SAMPLES\<close>), the frame that \<open>runInference\<close> assembles is the
  buffer read from the cursor on and around, row after row: it has
  \<open>WINDOW_SAMPLES * AXIS_COUNT\<close> scalars, and scalar \<open>j\<close> of its sample \<open>i\<close> is column
  \<open>j\<close> of the row \<open>i\<close> places after the cursor. That order is oldest first: \<open>readIMU\<close>
  keeps the shape, and the window read from the new cursor is the old window without its
  first row, followed by the row just written, so the row at the cursor is the oldest and
  the next to be overwritten. The classification block hands this frame to the classifier
  and leaves the buffer, the cursor and \<open>sampleCount\<close> as they were.
\<close>

theorem frame_oldest_first_from_cursor:
  assumes "wf_config c" "ring_ok c s"
  shows "assemble_sig c s = concat (rotate (unat (bufIndex s)) (imuBuffer s)) \<and>
         length (assemble_sig c s) = WINDOW_SAMPLES c * AXIS_COUNT c \<and>
         (\<forall>i<WINDOW_SAMPLES c. \<forall>j<AXIS_COUNT c.
            assemble_sig c s ! (i * AXIS_COUNT c + j) =
              imuBuffer s ! ((unat (bufIndex s) + i) mod WINDOW_SAMPLES c) ! j) \<and>
         ring_ok c (readIMU c e s) \<and>
         rotate (unat (bufIndex (readIMU c e s))) (imuBuffer (readIMU c e s)) =
           tl (rotate (unat (bufIndex s)) (imuBuffer s)) @ [written_row e s] \<and>
         fst (classify_block b c e s) ! 0 = RunInference (assemble_sig c s) \<and>
         imuBuffer (snd (classify_block b c e s)) = imuBuffer s \<and>
         bufIndex (snd (classify_block b c e s)) = bufIndex s \<and>
         sampleCount (snd (classify_block b c e s)) = sampleCount s"
proof -
  have "assemble_sig c (s\<lparr>sampleCounter := sampleCounter s - of_nat (HOP_SAMPLES c)\<rparr>) = assemble_sig c s"
    by (simp add: assemble_sig_def)
  then have "fst (classify_block b c e s) ! 0 = RunInference (assemble_sig c s)"
    by (simp add: classify_block_def Let_def split_beta)
  then show ?thesis
    using assemble_sig_concat [OF assms] assemble_sig_length [OF assms]
      assemble_sig_nth [OF assms] readIMU_ring_ok [OF assms] readIMU_window [OF assms]
    by (simp add: classify_block_ring)
qed

theorem frame_oldest_first_from_cursor_witness:
  "wf_config table_tennis_2 \<and> ring_ok table_tennis_2 numbered_window \<and>
   unat (sampleCount numbered_window) = WINDOW_SAMPLES table_tennis_2 \<and>
   length (assemble_sig table_tennis_2 numbered_window) = 150 \<and>
   assemble_sig table_tennis_2 numbered_window ! 0 = Finite 3 \<and>
   assemble_sig table_tennis_2 numbered_window ! 6 = Finite 4 \<and>
   assemble_sig table_tennis_2 numbered_window ! 144 = Finite 2"
proof -
  note t = frame_oldest_first_from_cursor [OF wf_table_tennis_2 ring_ok_numbered_window, of "tick_at 20 None 0 idle_values" True]
  note n = t [THEN conjunct2, THEN conjunct2, THEN conjunct1, rule_format]
  have "assemble_sig table_tennis_2 numbered_window ! 0 = Finite 3"
    using n [of 0 0] by (simp add: table_tennis_2_macros numbered_window_fields)
  moreover have "assemble_sig table_tennis_2 numbered_window ! 6 = Finite 4"
    using n [of 1 0] by (simp add: table_tennis_2_macros numbered_window_fields)
  moreover have "assemble_sig table_tennis_2 numbered_window ! 144 = Finite 2"
    using n [of 24 0] by (simp add: table_tennis_2_macros numbered_window_fields)
  moreover have "length (assemble_sig table_tennis_2 numbered_window) = 150"
    using t [THEN conjunct2, THEN conjunct1] by (simp add: table_tennis_2_macros)
  ultimately show ?thesis
    by (simp add: wf_table_tennis_2 ring_ok_numbered_window numbered_window_fields table_tennis_2_macros)
qed

subsection \<open>C5: the plausibility gate\<close>

text \<open>
  Claim C5. \<open>accelAboveThreshold\<close> is true exactly when some row of the window has a
  squared acceleration \<open>ax*ax+ay*ay+az*az\<close> strictly above the squared threshold
  \<open>thr*thr\<close>, where \<open>thr\<close> is \<open>2.0f\<close> g in metres per second squared; no square root is
  taken, and the result is false when no row is above. Both sides of the comparison are
  the single-precision numbers that the code computes, each product and each sum rounded,
  in the order of the source: \<open>9.80665f\<close> is 5141509 / 524288, \<open>thr\<close> is twice that and
  \<open>thr*thr\<close> is 12605245 / 32768, that is 384.681549072265625, a little above the exact
  square 384.68153689 of 19.6133. In the witness a window of rows with 30 on the z axis
  passes and a window of rows at rest does not; nor does a window of the rows stored for
  the reading (-5147, 14836, 4673) / 8192 g, whose squared magnitude in exact arithmetic is
  above the exact square, but rounds to the squared threshold itself.
\<close>

theorem plausibility_gate_any_sample:
  "(accelAboveThreshold c s \<longleftrightarrow>
      (\<exists>i. i < WINDOW_SAMPLES c \<and>
         fgt (fadd (fadd (fmul (imuBuffer s ! i ! 0) (imuBuffer s ! i ! 0))
                         (fmul (imuBuffer s ! i ! 1) (imuBuffer s ! i ! 1)))
                   (fmul (imuBuffer s ! i ! 2) (imuBuffer s ! i ! 2)))
             (fmul (fmul ACCEL_THRESH_G CONVERT_G_TO_MS2) (fmul ACCEL_THRESH_G CONVERT_G_TO_MS2)))) \<and>
   ACCEL_THRESH_G = Finite 2 \<and>
   CONVERT_G_TO_MS2 = Finite (5141509 / 524288) \<and>
   fmul ACCEL_THRESH_G CONVERT_G_TO_MS2 = Finite (5141509 / 262144) \<and>
   fmul (fmul ACCEL_THRESH_G CONVERT_G_TO_MS2) (fmul ACCEL_THRESH_G CONVERT_G_TO_MS2)
     = Finite (12605245 / 32768)"
proof -
  have scan: "accel_rows thr2 buf ks \<longleftrightarrow>
      (\<exists>i\<in>set ks. fgt (fadd (fadd (fmul (buf ! i ! 0) (buf ! i ! 0)) (fmul (buf ! i ! 1) (buf ! i ! 1)))
                            (fmul (buf ! i ! 2) (buf ! i ! 2))) thr2)" for thr2 buf ks
    by (induction ks) (auto simp: Let_def)
  have "accelAboveThreshold c s \<longleftrightarrow>
          accel_rows (fmul (fmul ACCEL_THRESH_G CONVERT_G_TO_MS2) (fmul ACCEL_THRESH_G CONVERT_G_TO_MS2))
            (imuBuffer s) [0..<WINDOW_SAMPLES c]"
    by (simp add: accelAboveThreshold_def Let_def)
  then have "accelAboveThreshold c s \<longleftrightarrow>
      (\<exists>i. i < WINDOW_SAMPLES c \<and>
         fgt (fadd (fadd (fmul (imuBuffer s ! i ! 0) (imuBuffer s ! i ! 0))
                         (fmul (imuBuffer s ! i ! 1) (imuBuffer s ! i ! 1)))
                   (fmul (imuBuffer s ! i ! 2) (imuBuffer s ! i ! 2)))
             (fmul (fmul ACCEL_THRESH_G CONVERT_G_TO_MS2) (fmul ACCEL_THRESH_G CONVERT_G_TO_MS2)))"
    by (auto simp: scan)
  then show ?thesis
    using ACCEL_THRESH_G_value CONVERT_G_TO_MS2_value threshold_value squared_threshold_value
    by simp
qed

theorem plausibility_gate_any_sample_witness:
  "accelAboveThreshold table_tennis_2 (full_window STATE_MAIN swing_row 0) \<and>
   \<not> accelAboveThreshold table_tennis_2 (full_window STATE_MAIN rest_row 0) \<and>
   margin_row = [Finite (- 3230389 / 524288), Finite (4655727 / 262144), Finite (5865789 / 1048576),
                 Finite 0, Finite 0, Finite 0] \<and>
   (- 3230389 / 524288) * (- 3230389 / 524288) + (4655727 / 262144) * (4655727 / 262144)
     + (5865789 / 1048576) * (5865789 / 1048576)
     > (2 * (980665 / 100000)) * (2 * (980665 / 100000) :: rat) \<and>
   \<not> accelAboveThreshold table_tennis_2 (full_window STATE_MAIN margin_row 0)"
proof -
  let ?thr2 = "fmul (fmul ACCEL_THRESH_G CONVERT_G_TO_MS2) (fmul ACCEL_THRESH_G CONVERT_G_TO_MS2)"
  have a: "fgt (fadd (fadd (fmul (swing_row ! 0) (swing_row ! 0)) (fmul (swing_row ! 1) (swing_row ! 1)))
                 (fmul (swing_row ! 2) (swing_row ! 2))) ?thr2"
    using swing_above by (simp add: above_threshold_def Let_def swing_row_def)
  have b: "\<not> fgt (fadd (fadd (fmul (rest_row ! 0) (rest_row ! 0)) (fmul (rest_row ! 1) (rest_row ! 1)))
                 (fmul (rest_row ! 2) (rest_row ! 2))) ?thr2"
    using rest_reading_not_above(1) by (simp add: above_threshold_def Let_def rest_row_def)
  have c: "\<not> fgt (fadd (fadd (fmul (margin_row ! 0) (margin_row ! 0)) (fmul (margin_row ! 1) (margin_row ! 1)))
                 (fmul (margin_row ! 2) (margin_row ! 2))) ?thr2"
    using margin_row_not_above by (simp add: above_threshold_def Let_def margin_row_def)
  have r: "imuBuffer (full_window st row 0) ! i = row" if "i < 25" for st row i
    using that by (simp add: full_window_fields)
  have w: "WINDOW_SAMPLES table_tennis_2 = 25"
    by (simp add: table_tennis_2_macros)
  have "\<exists>i. i < WINDOW_SAMPLES table_tennis_2 \<and>
          fgt (fadd (fadd (fmul (imuBuffer (full_window STATE_MAIN swing_row 0) ! i ! 0)
                                (imuBuffer (full_window STATE_MAIN swing_row 0) ! i ! 0))
                          (fmul (imuBuffer (full_window STATE_MAIN swing_row 0) ! i ! 1)
                                (imuBuffer (full_window STATE_MAIN swing_row 0) ! i ! 1)))
                    (fmul (imuBuffer (full_window STATE_MAIN swing_row 0) ! i ! 2)
                          (imuBuffer (full_window STATE_MAIN swing_row 0) ! i ! 2))) ?thr2"
    using a by (intro exI [of _ 0]) (simp add: w r)
  then have "accelAboveThreshold table_tennis_2 (full_window STATE_MAIN swing_row 0)"
    by (simp only: plausibility_gate_any_sample [THEN conjunct1])
  moreover have "\<not> accelAboveThreshold table_tennis_2 (full_window STATE_MAIN rest_row 0)"
    using plausibility_gate_any_sample [THEN conjunct1, of table_tennis_2 "full_window STATE_MAIN rest_row 0"] b
    by (auto simp: w r)
  moreover have "\<not> accelAboveThreshold table_tennis_2 (full_window STATE_MAIN margin_row 0)"
    using plausibility_gate_any_sample [THEN conjunct1, of table_tennis_2 "full_window STATE_MAIN margin_row 0"] c
    by (auto simp: w r)
  moreover have "margin_row = [Finite (- 3230389 / 524288), Finite (4655727 / 262144),
                   Finite (5865789 / 1048576), Finite 0, Finite 0, Finite 0]"
    by (simp only: margin_row_def margin_row_values)
  ultimately show ?thesis by simp
qed

subsection \<open>C6: a failing inference\<close>

text \<open>
  Claim C6, as amended. When \<open>signal_from_buffer\<close> or \<open>run_classifier\<close> returns an error
  in a pass of \<open>loop\<close>, \<open>runInference\<close> returns confidence 0 with index 0, and the block
  rejects it because 0 is not above the threshold: the block emits only the classifier call
  and leaves the globals as they were after the hop was paid, no category counter and no
  total changes in the pass, no flash is drawn, and the pass is the very pass that any
  other rejected result (a low confidence, the idle label) gives on the same clock and
  sensor readings. The index of the sentinel is 0, the index of the first stroke label and
  not a reserved value; the counterexample below shows it on the project's configuration.
\<close>

theorem inference_failure_is_rejected:
  assumes "inference_fails c e (hop_spent c (sampling c e s))"
  shows "let w = hop_spent c (sampling c e s)
         in runInference c e w = \<lparr>index = 0, confidence = Finite 0\<rparr> \<and>
            classify_block b c e (sampling c e s) = ([RunInference (assemble_sig c w)], w) \<and>
            counters (snd (loop c e s)) = counters s \<and>
            totalStrokes (snd (loop c e s)) = totalStrokes s \<and>
            \<not> list_ex is_DrawFlash (fst (loop c e s)) \<and>
            (millis e' = millis e \<and> millis_drawIdle e' = millis_drawIdle e \<and>
             acceleration e' = acceleration e \<and> gyroscope e' = gyroscope e \<and>
             \<not> decision c (runInference c e' w) w
             \<longrightarrow> loop c e' s = loop c e s)"
proof -
  let ?w = "hop_spent c (sampling c e s)"
  have d: "\<not> decision c (runInference c e ?w) ?w"
    by (rule decision_fails [OF assms])
  then have nd: "\<not> (hop_ready c (sampling c e s) \<and> decision c (runInference c e ?w) ?w)"
    by simp
  show ?thesis
    using runInference_fails [OF assms] classify_block_reject [OF d, of b]
      loop_reject_counters [OF nd] loop_rejects_agree [of e' e c s] d
    by (simp add: Let_def)
qed

theorem inference_failure_is_rejected_witness:
  "let c = table_tennis_2; e = signal_error_tick; s = full_window STATE_MAIN swing_row 13
   in inference_fails c e (hop_spent c (sampling c e s)) \<and>
      runInference c e (hop_spent c (sampling c e s)) = \<lparr>index = 0, confidence = Finite 0\<rparr> \<and>
      counters (snd (loop c e s)) = [0, 0, 0, 0, 0] \<and>
      totalStrokes (snd (loop c e s)) = 0 \<and>
      loop c (tick_at 5 None 0 idle_values) s = loop c e s"
proof -
  let ?c = table_tennis_2 and ?e = signal_error_tick and ?s = "full_window STATE_MAIN swing_row 13"
  let ?e' = "tick_at 5 None 0 idle_values"
  have nd: "\<not> sample_due ?e ?s"
    by (simp add: sample_due_def signal_error_tick_fields full_window_fields SAMPLE_INTERVAL_MS_def)
  have s: "sampling ?c ?e ?s = ?s"
    by (rule sampling_not_due [OF nd])
  have f: "inference_fails ?c ?e (hop_spent ?c (sampling ?c ?e ?s))"
    by (simp add: inference_fails_def signal_error_tick_fields)
  have d: "\<not> decision ?c (runInference ?c ?e' (hop_spent ?c ?s)) (hop_spent ?c ?s)"
    by (simp add: decision_def runInference_idle table_tennis_2_macros)
  show ?thesis
    using inference_failure_is_rejected [OF f, of True ?e'] f d
    by (simp add: Let_def s tick_at_fields signal_error_tick_fields full_window_fields)
qed

theorem inference_failure_is_rejected_counterexample:
  "inference_fails table_tennis_2 signal_error_tick (full_window STATE_MAIN swing_row 13) \<and>
   unat (index (runInference table_tennis_2 signal_error_tick (full_window STATE_MAIN swing_row 13)))
     < EI_CLASSIFIER_LABEL_COUNT table_tennis_2 \<and>
   index (runInference table_tennis_2 signal_error_tick (full_window STATE_MAIN swing_row 13))
     \<noteq> IDLE_LABEL_INDEX table_tennis_2"
proof -
  have f: "inference_fails table_tennis_2 signal_error_tick (full_window STATE_MAIN swing_row 13)"
    by (simp add: inference_fails_def signal_error_tick_fields)
  show ?thesis
    using f by (simp add: runInference_fails [OF f] table_tennis_2_macros)
qed

subsection \<open>C7: a tick without a sensor reading\<close>

text \<open>
  Claim C7 does not hold of \<open>readIMU\<close>. On a tick whose sampling interval has passed and
  on which neither sensor has a reading, the row at the cursor is overwritten with zeros
  (here a row at rest, 1 g on the z axis), the cursor advances and the hop counter goes up;
  right after \<open>setup\<close> the filled counter goes from 0 to 1 on such a tick.
\<close>

theorem unavailable_sensor_writes_zero_row:
  "let e = tick_at 20 None 0 idle_values;
       s = full_window STATE_MAIN rest_row 5;
       s' = snd (loop table_tennis_2 e s);
       b = (initial_globals table_tennis_2)\<lparr>currentState := STATE_MAIN\<rparr>;
       b' = snd (loop table_tennis_2 e b)
   in acceleration e = None \<and> gyroscope e = None \<and>
      setup_sketch table_tennis_2 True True (0, 0, 0, 0) = Some b \<and>
      imuBuffer s ! 0 = [Finite 0, Finite 0, Finite (5141509 / 524288), Finite 0, Finite 0, Finite 0] \<and> imuBuffer s' ! 0 = [Finite 0, Finite 0, Finite 0, Finite 0, Finite 0, Finite 0] \<and>
      bufIndex s = 0 \<and> bufIndex s' = 1 \<and>
      sampleCounter s = 5 \<and> sampleCounter s' = 6 \<and>
      sampleCount b = 0 \<and> sampleCount b' = 1 \<and> bufIndex b' = 1 \<and> sampleCounter b' = 1"
  by (simp add: Let_def loop_def sampling_def sample_due_def SAMPLE_INTERVAL_MS_def readIMU_def
        tick_at_fields full_window_fields rest_row_def rest_value table_tennis_2_macros
        case_MAIN_def hop_block_def hop_ready_def split_beta initial_globals_def
        IDLE_TIMEOUT_MS_def ANIM_INTERVAL_MS_def setup_sketch_def)

subsection \<open>C8: the scenario of a calm start\<close>

text \<open>
  Claim C8, as amended. On the configuration of 25 samples and a hop of 13, from the globals
  that \<open>setup\<close> leaves (empty buffer, \<open>STATE_MAIN\<close>), over at most 25 passes within the
  idle timeout that each take a calm sample (one whose acceleration is not read, or is
  stored by \<open>readIMU\<close> as a row that the gate of C5 does not find above its threshold, both
  computed in single precision; a bat at rest is calm): the classifier is called in pass 25
  and in no pass before it, so not after 13 samples, where the window is not yet full; and
  in every pass, whatever the classifier returns (\<open>0.9f\<close> on a stroke label in the
  witness), no flash is drawn, every counter stays 0 and the state stays \<open>STATE_MAIN\<close>.
  The counterexample below is the scenario as the claim has it: 13 such samples and no
  classifier call.
\<close>

theorem calm_window_rejected_after_fill:
  assumes "setup_sketch table_tennis_2 True True (t1, t2, t3, t4) = Some s0"
    and "paced t1 es" and "\<forall>e\<in>set es. calm e \<and> millis e - t4 < IDLE_TIMEOUT_MS"
    and "length es \<le> 25" and "k < length es"
  shows "(list_ex is_RunInference (fst (run table_tennis_2 es s0 ! k)) \<longleftrightarrow> k = 24) \<and>
         \<not> list_ex is_DrawFlash (fst (run table_tennis_2 es s0 ! k)) \<and>
         counters (snd (run table_tennis_2 es s0 ! k)) = [0, 0, 0, 0, 0] \<and>
         totalStrokes (snd (run table_tennis_2 es s0 ! k)) = 0 \<and>
         currentState (snd (run table_tennis_2 es s0 ! k)) = STATE_MAIN"
proof -
  have l: "length es \<le> WINDOW_SAMPLES table_tennis_2"
    using assms(4) by (simp add: table_tennis_2_macros)
  from setup_run_fill [OF wf_table_tennis_2 assms(1,2,3) l assms(5)]
  show ?thesis by (auto simp: table_tennis_2_macros)
qed

theorem calm_window_rejected_after_fill_witness:
  "setup_sketch table_tennis_2 True True (0, 0, 0, 0) = Some boot \<and>
   paced 0 (calm_ticks 25 0) \<and> list_all calm (calm_ticks 25 0) \<and> length (calm_ticks 25 0) = 25 \<and>
   runInference table_tennis_2 (last (calm_ticks 25 0)) boot = \<lparr>index = 4, confidence = round32 (9 / 10)\<rparr> \<and>
   list_ex is_RunInference (fst (run table_tennis_2 (calm_ticks 25 0) boot ! 24)) \<and>
   \<not> list_ex is_RunInference (fst (run table_tennis_2 (calm_ticks 25 0) boot ! 12)) \<and>
   \<not> list_ex is_DrawFlash (fst (run table_tennis_2 (calm_ticks 25 0) boot ! 24)) \<and>
   counters (snd (run table_tennis_2 (calm_ticks 25 0) boot ! 24)) = [0, 0, 0, 0, 0] \<and>
   totalStrokes (snd (run table_tennis_2 (calm_ticks 25 0) boot ! 24)) = 0 \<and>
   currentState (snd (run table_tennis_2 (calm_ticks 25 0) boot ! 24)) = STATE_MAIN"
proof -
  have h: "\<forall>e\<in>set (calm_ticks 25 0). calm e \<and> millis e - 0 < IDLE_TIMEOUT_MS"
    by (rule calm_ticks_hyp) simp
  have l: "length (calm_ticks 25 0) \<le> 25" by simp
  have a: "24 < length (calm_ticks 25 0)" and b: "12 < length (calm_ticks 25 0)" by simp_all
  have "last (calm_ticks 25 0) \<in> set (calm_ticks 25 0)"
    by (rule last_in_set) (simp add: eval_nat_numeral)
  then have s: "runInference table_tennis_2 (last (calm_ticks 25 0)) boot = \<lparr>index = 4, confidence = round32 (9 / 10)\<rparr>"
    by (rule smash_calm_ticks)
  show ?thesis
    using calm_window_rejected_after_fill [OF setup_boot paced_calm_ticks h l a] calm_window_rejected_after_fill [OF setup_boot paced_calm_ticks h l b] s
    by (simp add: setup_boot paced_calm_ticks list_all_iff calm_calm_ticks)
qed

theorem calm_window_rejected_after_fill_counterexample:
  "setup_sketch table_tennis_2 True True (0, 0, 0, 0) = Some boot \<and>
   paced 0 (calm_ticks 13 0) \<and> list_all calm (calm_ticks 13 0) \<and> length (calm_ticks 13 0) = 13 \<and>
   \<not> list_ex calls_classifier (run table_tennis_2 (calm_ticks 13 0) boot)"
proof -
  have h: "\<forall>e\<in>set (calm_ticks 13 0). calm e \<and> millis e - 0 < IDLE_TIMEOUT_MS"
    by (rule calm_ticks_hyp) simp
  have l: "length (calm_ticks 13 0) \<le> WINDOW_SAMPLES table_tennis_2"
    by (simp add: table_tennis_2_macros)
  have "\<not> list_ex is_RunInference (fst (run table_tennis_2 (calm_ticks 13 0) boot ! k))"
    if "k < 13" for k
    using setup_run_fill [OF wf_table_tennis_2 setup_boot paced_calm_ticks h l, of k] that
    by (simp add: table_tennis_2_macros)
  then have "\<not> list_ex calls_classifier (run table_tennis_2 (calm_ticks 13 0) boot)"
    by (simp add: list_ex_length calls_classifier_def)
  then show ?thesis
    by (simp add: setup_boot paced_calm_ticks list_all_iff calm_calm_ticks)
qed

subsection \<open>C9: acceptance while the flash is shown\<close>

text \<open>
  Claim C9. When a pass of \<open>loop\<close> starts in \<open>STATE_FLASH\<close> and its classification is
  accepted, the flash timer restarts (\<open>flashStart\<close> is the time of the pass), the flash is
  drawn again with the message of the new category, the counter of the category and the
  total go up by one, and the pass ends in \<open>STATE_FLASH\<close>: the only events are the
  classifier call and the flash, so the main screen is not drawn and \<open>STATE_MAIN\<close> is
  not entered.
\<close>

theorem flash_reentry_restarts_timer:
  assumes "1 \<le> EI_CLASSIFIER_LABEL_COUNT c" "EI_CLASSIFIER_LABEL_COUNT c \<le> 6"
    and "currentState s = STATE_FLASH"
    and "hop_ready c (sampling c e s)"
    and "decision c (runInference c e (hop_spent c (sampling c e s))) (hop_spent c (sampling c e s))"
  shows "let w = hop_spent c (sampling c e s);
             r = runInference c e w;
             (ev, s') = loop c e s
         in flashStart s' = millis e \<and>
            ev = [RunInference (assemble_sig c w), DrawFlash (index r) (flash_message (index r) s)] \<and>
            counters s' = (counters s)[unat (index r) := counters s ! unat (index r) + 1] \<and>
            totalStrokes s' = totalStrokes s + 1 \<and>
            currentState s' = STATE_FLASH"
  using classify_block_accepted [OF assms(5) assms(1,2), of False] assms(3)
  by (simp add: loop_FLASH_accept [OF assms(3,4,5)] Let_def split_beta sampling_keeps)

theorem flash_reentry_restarts_timer_witness:
  "let (ev, s') = loop table_tennis_2 (tick_at 5 None 0 smash_values) (full_window STATE_FLASH swing_row 13)
   in flashStart s' = 5 \<and> ev ! 1 = DrawFlash 4 ''Pure power!'' \<and> counters s' = [0, 0, 0, 0, 1] \<and>
      totalStrokes s' = 1 \<and> currentState s' = STATE_FLASH"
proof -
  let ?e = "tick_at 5 None 0 smash_values" and ?s = "full_window STATE_FLASH swing_row 13"
  have nd: "\<not> sample_due ?e ?s"
    by (simp add: sample_due_def tick_at_fields full_window_fields SAMPLE_INTERVAL_MS_def)
  have s: "sampling table_tennis_2 ?e ?s = ?s"
    by (rule sampling_not_due [OF nd])
  have l: "1 \<le> EI_CLASSIFIER_LABEL_COUNT table_tennis_2" "EI_CLASSIFIER_LABEL_COUNT table_tennis_2 \<le> 6"
    by (simp_all add: table_tennis_2_macros)
  have f: "currentState ?s = STATE_FLASH" by (simp add: full_window_fields)
  have h: "hop_ready table_tennis_2 (sampling table_tennis_2 ?e ?s)"
    by (simp add: s hop_ready_def full_window_fields table_tennis_2_macros)
  have d: "decision table_tennis_2
             (runInference table_tennis_2 ?e (hop_spent table_tennis_2 (sampling table_tennis_2 ?e ?s)))
             (hop_spent table_tennis_2 (sampling table_tennis_2 ?e ?s))"
    by (simp add: s decision_smash_swing)
  show ?thesis
    using flash_reentry_restarts_timer [OF l f h d]
    by (simp add: s Let_def split_beta runInference_smash full_window_fields
          flash_message_full_window_4 tick_at_fields)
qed

subsection \<open>C10: acceptance in the main state when the idle timeout has passed\<close>

text \<open>
  Claim C10. When a pass of \<open>loop\<close> starts in \<open>STATE_MAIN\<close>, its classification is
  accepted and \<open>now - lastStrokeTime\<close> has reached \<open>IDLE_TIMEOUT_MS\<close>, the pass ends in
  \<open>STATE_IDLE\<close>: the flash is drawn, the counters go up and \<open>flashStart\<close> is set, but
  \<open>lastStrokeTime\<close> is left as it was, so the idle check that follows in the same case
  overrides the state. The last conjunct says where \<open>lastStrokeTime\<close> does change: only in
  a pass (of any tick \<open>e2\<close> from any globals \<open>s2\<close>) that starts in \<open>STATE_FLASH\<close> and
  ends in \<open>STATE_MAIN\<close>, the flash timeout.
\<close>

theorem late_acceptance_in_main_ends_idle:
  assumes "1 \<le> EI_CLASSIFIER_LABEL_COUNT c" "EI_CLASSIFIER_LABEL_COUNT c \<le> 6"
    and "currentState s = STATE_MAIN"
    and "hop_ready c (sampling c e s)"
    and "decision c (runInference c e (hop_spent c (sampling c e s))) (hop_spent c (sampling c e s))"
    and "millis e - lastStrokeTime s \<ge> IDLE_TIMEOUT_MS"
  shows "let w = hop_spent c (sampling c e s);
             r = runInference c e w;
             (ev, s') = loop c e s
         in currentState s' = STATE_IDLE \<and>
            take 2 ev = [RunInference (assemble_sig c w), DrawFlash (index r) (flash_message (index r) s)] \<and>
            counters s' = (counters s)[unat (index r) := counters s ! unat (index r) + 1] \<and>
            totalStrokes s' = totalStrokes s + 1 \<and>
            flashStart s' = millis e \<and>
            lastStrokeTime s' = lastStrokeTime s \<and>
            (lastStrokeTime (snd (loop c e2 s2)) \<noteq> lastStrokeTime s2 \<longrightarrow>
               currentState s2 = STATE_FLASH \<and> currentState (snd (loop c e2 s2)) = STATE_MAIN)"
proof -
  have late: "millis e - lastStrokeTime (sampling c e s) \<ge> IDLE_TIMEOUT_MS"
    using assms(6) by (simp add: sampling_keeps)
  show ?thesis
    using classify_block_accepted [OF assms(5) assms(1,2), of True]
      case_MAIN_accept_late [OF assms(4,5) late] lastStrokeTime_loop [of c e2 s2]
    by (simp add: loop_MAIN [OF assms(3)] Let_def split_beta sampling_keeps)
qed

theorem late_acceptance_in_main_ends_idle_witness:
  "let s = (full_window STATE_MAIN swing_row 13)\<lparr>lastIMUread := 10000\<rparr>;
       (ev, s') = loop table_tennis_2 (tick_at 10005 None 0 smash_values) s;
       s2 = (full_window STATE_FLASH rest_row 0)\<lparr>lastIMUread := 3000\<rparr>;
       s2' = snd (loop table_tennis_2 (tick_at 3005 None 0 idle_values) s2)
   in currentState s' = STATE_IDLE \<and> DrawFlash 4 ''Pure power!'' \<in> set (take 2 ev) \<and>
      counters s' = [0, 0, 0, 0, 1] \<and> totalStrokes s' = 1 \<and> flashStart s' = 10005 \<and>
      lastStrokeTime s' = 0 \<and>
      lastStrokeTime s2' = 3005 \<and> lastStrokeTime s2 = 0 \<and> currentState s2' = STATE_MAIN"
proof -
  let ?e = "tick_at 10005 None 0 smash_values"
  let ?s = "(full_window STATE_MAIN swing_row 13)\<lparr>lastIMUread := 10000\<rparr>"
  let ?e2 = "tick_at 3005 None 0 idle_values"
  let ?s2 = "(full_window STATE_FLASH rest_row 0)\<lparr>lastIMUread := 3000\<rparr>"
  have nd: "\<not> sample_due ?e ?s"
    by (simp add: sample_due_def tick_at_fields SAMPLE_INTERVAL_MS_def)
  have s: "sampling table_tennis_2 ?e ?s = ?s"
    by (rule sampling_not_due [OF nd])
  have hs: "hop_spent table_tennis_2 ?s = (hop_spent table_tennis_2 (full_window STATE_MAIN swing_row 13))\<lparr>lastIMUread := 10000\<rparr>"
    by (simp add: hop_spent_def)
  have l: "1 \<le> EI_CLASSIFIER_LABEL_COUNT table_tennis_2" "EI_CLASSIFIER_LABEL_COUNT table_tennis_2 \<le> 6"
    by (simp_all add: table_tennis_2_macros)
  have f: "currentState ?s = STATE_MAIN" by (simp add: full_window_fields)
  have h: "hop_ready table_tennis_2 (sampling table_tennis_2 ?e ?s)"
    by (simp add: s hop_ready_def full_window_fields table_tennis_2_macros)
  have g: "accelAboveThreshold table_tennis_2 (hop_spent table_tennis_2 ?s)"
    using swing_window_gate' [of table_tennis_2 STATE_MAIN 13]
    by (simp add: accelAboveThreshold_def hop_spent_def)
  have d: "decision table_tennis_2
             (runInference table_tennis_2 ?e (hop_spent table_tennis_2 (sampling table_tennis_2 ?e ?s)))
             (hop_spent table_tennis_2 (sampling table_tennis_2 ?e ?s))"
    by (simp add: s decision_def runInference_smash g swing_window_gate fgt_literals
          table_tennis_2_macros)
  have t: "millis ?e - lastStrokeTime ?s \<ge> IDLE_TIMEOUT_MS"
    by (simp add: tick_at_fields full_window_fields IDLE_TIMEOUT_MS_def)
  have nd2: "\<not> sample_due ?e2 ?s2"
    by (simp add: sample_due_def tick_at_fields SAMPLE_INTERVAL_MS_def)
  have nr2: "\<not> hop_ready table_tennis_2 ?s2"
    by (simp add: hop_ready_def full_window_fields table_tennis_2_macros)
  have l2: "loop table_tennis_2 ?e2 ?s2 =
              ([drawMainScreen (?s2\<lparr>lastDisplay := 3005, lastStrokeTime := 3005\<rparr>)],
               ?s2\<lparr>lastDisplay := 3005, lastStrokeTime := 3005, currentState := STATE_MAIN\<rparr>)"
    by (simp add: loop_def Let_def sampling_not_due [OF nd2] full_window_fields case_FLASH_def
          hop_block_idle [OF nr2] tick_at_fields FLASH_DURATION_MS_def)
  have c: "counters ?s = [0, 0, 0, 0, 0]"
    by (simp add: counters_def full_window_def initial_globals_def)
  show ?thesis
    using late_acceptance_in_main_ends_idle [OF l f h d t, of ?e2 ?s2]
    by (simp add: s Let_def split_beta runInference_smash full_window_fields c
          flash_message_def full_window_encIndex encMsgs_def tick_at_fields l2)
qed

end
